theory Spec2Isabelle
  imports Complex_Main "HOL-Library.Word"
begin

unbundle bit_operations_syntax

section \<open>PackedNavBits: the navigation bit buffer of GPSTk\<close>

text \<open>
  A shallow embedding of \<^verbatim>\<open>src/core/lib/GNSSEph/PackedNavBits.cpp\<close>.

  Conventions of the embedding.
  \<^item> \<^verbatim>\<open>std::vector<bool> bits\<close> is a \<open>bool list\<close>; \<^verbatim>\<open>bits.size()\<close> is its length.
  \<^item> \<^verbatim>\<open>int\<close> and \<^verbatim>\<open>short\<close> arguments are HOL integers. The C++ conversions that the
    source performs on them (\<^verbatim>\<open>int\<close> to \<^verbatim>\<open>size_t\<close>, \<^verbatim>\<open>size_t\<close> to \<^verbatim>\<open>short\<close>) are
    written out; signed overflow of \<^verbatim>\<open>int\<close> sums is not modelled.
  \<^item> \<^verbatim>\<open>uint64_t\<close>, \<^verbatim>\<open>int64_t\<close>, \<^verbatim>\<open>unsigned long\<close> and \<^verbatim>\<open>long\<close> are \<open>64 word\<close>
    (an LP64 platform); a signed value is read with \<open>sint\<close>.
  \<^item> Every \<^verbatim>\<open>GPSTK_THROW(InvalidParameter(msg))\<close> is the value
    \<open>Inl (InvalidParameter msg)\<close>.
  \<^item> \<open>Inl StdLengthError\<close> is the \<^verbatim>\<open>std::length_error\<close> of a vector resized beyond its
    maximal size (a negative \<^verbatim>\<open>int\<close> converted to the size type).
  \<^item> Executions that C++ leaves undefined (an unchecked vector index outside the
    storage, a shift count outside 0..63, a division by zero, a floating-point value
    converted to an integer type that cannot hold it) are the value
    \<open>Inl UndefinedBehaviour\<close>: nothing is claimed about what they produce.
  \<^item> The identifier and time types (\<^verbatim>\<open>SatID\<close>, \<^verbatim>\<open>ObsID\<close>, \<^verbatim>\<open>NavID\<close>,
    \<^verbatim>\<open>CommonTime\<close>) are type parameters: the buffer stores and compares them only.
\<close>

datatype failure = InvalidParameter string | StdLengthError | UndefinedBehaviour

datatype ParityStatus = psUnknown | psPassed | psFailed

record ('sat, 'obs, 'nav, 'time) PackedNavBits =
  satSys :: 'sat
  obsID :: 'obs
  navID :: 'nav
  rxID :: string
  transmitTime :: 'time
  parityStatus :: ParityStatus
  bits :: "bool list"
  bits_used :: int
  xMitCoerced :: bool

text \<open>
  The constructor taking every identifier (source lines 97-114). The shorter constructors
  leave the missing identifiers default-constructed; their callers pass those defaults
  here. Each constructor starts with 900 cleared cells and \<open>bits_used = 0\<close>.
\<close>

definition PackedNavBits_new ::
  "'sat \<Rightarrow> 'obs \<Rightarrow> 'nav \<Rightarrow> string \<Rightarrow> 'time \<Rightarrow> ('sat, 'obs, 'nav, 'time) PackedNavBits" where
  "PackedNavBits_new satSysArg obsIDArg navIDArg rxString transmitTimeArg =
     \<lparr> satSys = satSysArg, obsID = obsIDArg, navID = navIDArg, rxID = rxString,
       transmitTime = transmitTimeArg, parityStatus = psUnknown,
       bits = replicate 900 False, bits_used = 0, xMitCoerced = False \<rparr>"

text \<open>A buffer with unit identifiers, for concrete evaluations.\<close>

definition emptyPNB :: "(unit, unit, unit, unit) PackedNavBits" where
  "emptyPNB = PackedNavBits_new () () () [] ()"

subsection \<open>Integer conversions\<close>

text \<open>Conversion of an \<^verbatim>\<open>int\<close> to \<^verbatim>\<open>size_t\<close> (64 bits): reduction modulo \<open>2^64\<close>.\<close>

definition size_t_of :: "int \<Rightarrow> nat" where
  "size_t_of i = nat (i mod 2 ^ 64)"

subsection \<open>Unpacking: asUint64_t and asUnsignedLong\<close>

text \<open>
  \<^verbatim>\<open>asUint64_t\<close> (lines 223-241). The bound that is checked is the size of the storage
  vector. The loop shifts the accumulator left and adds the cell, from \<^verbatim>\<open>startBit\<close>
  up to \<^verbatim>\<open>stop\<close>.
\<close>

definition asUint64_step :: "bool list \<Rightarrow> 64 word \<Rightarrow> nat \<Rightarrow> 64 word" where
  "asUint64_step bs temp i = (let t = push_bit 1 temp in if bs ! i then t + 1 else t)"

definition asUint64_t ::
  "('sat, 'obs, 'nav, 'time) PackedNavBits \<Rightarrow> int \<Rightarrow> int \<Rightarrow> failure + 64 word" where
  "asUint64_t p startBit numBits =
     (let stop = size_t_of (startBit + numBits) in
      if stop > length (bits p) then Inl (InvalidParameter ''Requested bits not present.'')
      else Inr (foldl (asUint64_step (bits p)) 0 [size_t_of startBit ..< stop]))"

text \<open>\<^verbatim>\<open>asUnsignedLong\<close> (lines 243-251): the raw value times the scale, in 64 bits.\<close>

definition asUnsignedLong ::
  "('sat, 'obs, 'nav, 'time) PackedNavBits \<Rightarrow> int \<Rightarrow> int \<Rightarrow> int \<Rightarrow> failure + 64 word" where
  "asUnsignedLong p startBit numBits scale =
     (case asUint64_t p startBit numBits of
        Inl e \<Rightarrow> Inl e
      | Inr temp \<Rightarrow> Inr (temp * word_of_int scale))"

subsection \<open>Packing: addUint64_t and addUnsignedLong\<close>

text \<open>
  The loop of \<^verbatim>\<open>addUint64_t\<close> (lines 615-625): \<open>n\<close> more cells to write at \<open>ndx\<close>,
  the mask moving right by one each time.
\<close>

fun addUint64_loop :: "64 word \<Rightarrow> 64 word \<Rightarrow> nat \<Rightarrow> nat \<Rightarrow> bool list \<Rightarrow> bool list" where
  "addUint64_loop v msk ndx 0 bs = bs"
| "addUint64_loop v msk ndx (Suc n) bs =
     addUint64_loop v (drop_bit 1 msk) (Suc ndx) n (bs[ndx := (v AND msk \<noteq> 0)])"

text \<open>
  \<^verbatim>\<open>addUint64_t\<close> (lines 609-627). The source checks nothing: the mask shift
  \<^verbatim>\<open>mask <<= (numBits-1)\<close> is defined for \<open>1 \<le> numBits \<le> 64\<close> only, and the cell
  writes \<^verbatim>\<open>bits[ndx]\<close> are unchecked vector accesses, defined only inside the storage.
\<close>

definition addUint64_t ::
  "('sat, 'obs, 'nav, 'time) PackedNavBits \<Rightarrow> 64 word \<Rightarrow> int \<Rightarrow>
     failure + ('sat, 'obs, 'nav, 'time) PackedNavBits" where
  "addUint64_t p v numBits =
     (if numBits < 1 \<or> 64 < numBits then Inl UndefinedBehaviour
      else if bits_used p < 0 \<or> int (length (bits p)) < bits_used p + numBits
        then Inl UndefinedBehaviour
      else Inr (p\<lparr> bits := addUint64_loop v (push_bit (nat (numBits - 1)) 1)
                               (nat (bits_used p)) (nat numBits) (bits p),
                   bits_used := bits_used p + numBits \<rparr>))"

text \<open>
  The limit \<^verbatim>\<open>uint64_t test = pow(static_cast<double>(2),numBits) - 1\<close> (line 472) is
  computed in IEEE 754 binary64 arithmetic and then converted to \<^verbatim>\<open>uint64_t\<close>.
  \<open>bitlen\<close> is the number of binary digits of a natural number, and \<open>round_binary64\<close>
  rounds a natural number to the nearest binary64 value (a 53-bit significand, ties to
  the even significand).
\<close>

fun bitlen :: "nat \<Rightarrow> nat" where
  "bitlen n = (if n = 0 then 0 else Suc (bitlen (n div 2)))"

declare bitlen.simps [simp del]

definition round_binary64 :: "nat \<Rightarrow> nat" where
  "round_binary64 x =
     (let e = bitlen x - 53; q = x div 2 ^ e; r = x mod 2 ^ e in
      if 2 ^ e < 2 * r \<or> (2 * r = 2 ^ e \<and> odd q) then (q + 1) * 2 ^ e else q * 2 ^ e)"

text \<open>
  \<^verbatim>\<open>pow(2.0, numBits)\<close> is an exact power of two. For \<open>1 \<le> numBits \<le> 63\<close> the
  difference \<open>2^numBits - 1\<close> is rounded to binary64 and the result fits \<^verbatim>\<open>uint64_t\<close>.
  For \<open>-53 \<le> numBits \<le> 0\<close> the difference lies in \<open>(-1, 0]\<close> and the conversion
  truncates it to 0. Otherwise the difference rounds to \<open>-1.0\<close> or is at least
  \<open>2^64\<close>, and its conversion to \<^verbatim>\<open>uint64_t\<close> is undefined.
\<close>

definition pow2_minus_1 :: "int \<Rightarrow> failure + 64 word" where
  "pow2_minus_1 numBits =
     (if numBits < - 53 \<or> 63 < numBits then Inl UndefinedBehaviour
      else if numBits \<le> 0 then Inr 0
      else Inr (word_of_nat (round_binary64 (2 ^ nat numBits - 1))))"

text \<open>
  \<^verbatim>\<open>addUnsignedLong\<close> (lines 464-479). \<^verbatim>\<open>out /= scale\<close> divides a \<^verbatim>\<open>uint64_t\<close> by
  the \<^verbatim>\<open>int\<close> scale converted to \<^verbatim>\<open>uint64_t\<close>; a zero divisor is undefined.
\<close>

definition addUnsignedLong ::
  "('sat, 'obs, 'nav, 'time) PackedNavBits \<Rightarrow> 64 word \<Rightarrow> int \<Rightarrow> int \<Rightarrow>
     failure + ('sat, 'obs, 'nav, 'time) PackedNavBits" where
  "addUnsignedLong p v numBits scale =
     (if (word_of_int scale :: 64 word) = 0 then Inl UndefinedBehaviour
      else let out = v div word_of_int scale in
        case pow2_minus_1 numBits of
          Inl e \<Rightarrow> Inl e
        | Inr test \<Rightarrow>
            if out > test
            then Inl (InvalidParameter ''Scaled value too large for specifed bit length'')
            else addUint64_t p out numBits)"

subsection \<open>Sign extension and the split signed unpack\<close>

text \<open>
  \<^verbatim>\<open>SignExtend\<close> (lines 772-783): the raw bits are moved to the top of the 64-bit word and
  shifted back arithmetically. The shift count \<^verbatim>\<open>64 - numBits\<close> is defined for
  \<open>1 \<le> numBits \<le> 64\<close> only. The left shift of the signed value is the two's
  complement one (as compilers implement it and C++20 defines it).
\<close>

definition SignExtend ::
  "('sat, 'obs, 'nav, 'time) PackedNavBits \<Rightarrow> int \<Rightarrow> int \<Rightarrow> failure + 64 word" where
  "SignExtend p startBit numBits =
     (case asUint64_t p startBit numBits of
        Inl e \<Rightarrow> Inl e
      | Inr u \<Rightarrow>
          if numBits < 1 \<or> 64 < numBits then Inl UndefinedBehaviour
          else Inr (signed_drop_bit (nat (64 - numBits)) (push_bit (nat (64 - numBits)) u)))"

text \<open>
  \<^verbatim>\<open>(long) (s * scale)\<close>: a signed 64-bit product; its overflow is undefined.
\<close>

definition long_times :: "64 word \<Rightarrow> int \<Rightarrow> failure + 64 word" where
  "long_times s scale =
     (let r = sint s * scale in
      if r < - (2 ^ 63) \<or> 2 ^ 63 \<le> r then Inl UndefinedBehaviour else Inr (word_of_int r))"

text \<open>\<^verbatim>\<open>asLong\<close> on one range (lines 253-258).\<close>

definition asLong ::
  "('sat, 'obs, 'nav, 'time) PackedNavBits \<Rightarrow> int \<Rightarrow> int \<Rightarrow> int \<Rightarrow> failure + 64 word" where
  "asLong p startBit numBits scale =
     (case SignExtend p startBit numBits of
        Inl e \<Rightarrow> Inl e
      | Inr s \<Rightarrow> long_times s scale)"

text \<open>
  Conversion of an \<^verbatim>\<open>unsigned\<close> (32 bits) to \<^verbatim>\<open>int\<close>, which happens where an element
  of \<^verbatim>\<open>startBits[]\<close> or \<^verbatim>\<open>numBits[]\<close> is passed to an \<^verbatim>\<open>int\<close> parameter: values
  from \<open>2^31\<close> on wrap to the negative numbers (as compilers implement it and C++20
  defines it).
\<close>

definition int_of_unsigned :: "nat \<Rightarrow> int" where
  "int_of_unsigned u =
     (let v = u mod 2 ^ 32 in if v < 2 ^ 31 then int v else int v - 2 ^ 32)"

text \<open>
  The loop of the split \<^verbatim>\<open>asLong\<close> (lines 380-384), with \<open>k\<close> iterations left at
  index \<open>i\<close>. The arrays \<^verbatim>\<open>startBits[]\<close> and \<^verbatim>\<open>numBits[]\<close> are lists of
  \<^verbatim>\<open>unsigned\<close> values; an index past the end of an array is undefined, and so is a
  shift \<^verbatim>\<open>s <<= numBits[i]\<close> by 64 or more.
\<close>

fun asLong_loop ::
  "('sat, 'obs, 'nav, 'time) PackedNavBits \<Rightarrow> nat list \<Rightarrow> nat list \<Rightarrow> nat \<Rightarrow> nat \<Rightarrow> 64 word \<Rightarrow>
     failure + 64 word" where
  "asLong_loop p startBits numBits i 0 s = Inr s"
| "asLong_loop p startBits numBits i (Suc k) s =
     (if length startBits \<le> i \<or> length numBits \<le> i then Inl UndefinedBehaviour
      else case asUint64_t p (int_of_unsigned (startBits ! i)) (int_of_unsigned (numBits ! i)) of
        Inl e \<Rightarrow> Inl e
      | Inr temp \<Rightarrow>
          if 64 \<le> numBits ! i then Inl UndefinedBehaviour
          else asLong_loop p startBits numBits (Suc i) k (push_bit (numBits ! i) s OR temp))"

text \<open>
  The split \<^verbatim>\<open>asLong\<close> (lines 372-392). Element 0 of both arrays is read whatever
  \<^verbatim>\<open>len\<close> is; the loop runs for \<open>i = 1, ..., len - 1\<close>.
\<close>

definition asLong_split ::
  "('sat, 'obs, 'nav, 'time) PackedNavBits \<Rightarrow> nat list \<Rightarrow> nat list \<Rightarrow> nat \<Rightarrow> int \<Rightarrow>
     failure + 64 word" where
  "asLong_split p startBits numBits len scale =
     (if startBits = [] \<or> numBits = [] then Inl UndefinedBehaviour
      else case SignExtend p (int_of_unsigned (startBits ! 0)) (int_of_unsigned (numBits ! 0)) of
        Inl e \<Rightarrow> Inl e
      | Inr s0 \<Rightarrow>
          (case asLong_loop p startBits numBits 1 (len - 1) s0 of
             Inl e \<Rightarrow> Inl e
           | Inr s \<Rightarrow> long_times s scale))"

subsection \<open>Storage size: resize, trimsize, reset_num_bits\<close>

text \<open>
  \<^verbatim>\<open>bits.resize(n)\<close> for an \<^verbatim>\<open>int n\<close>: the vector is cut to \<open>n\<close> cells or filled
  with cleared cells up to \<open>n\<close>.
\<close>

definition vector_resize :: "bool list \<Rightarrow> int \<Rightarrow> failure + bool list" where
  "vector_resize bs n =
     (if n < 0 then Inl StdLengthError
      else Inr (take (nat n) bs @ replicate (nat n - length bs) False))"

text \<open>\<^verbatim>\<open>reset_num_bits\<close> (lines 760-763).\<close>

definition reset_num_bits ::
  "('sat, 'obs, 'nav, 'time) PackedNavBits \<Rightarrow> int \<Rightarrow> ('sat, 'obs, 'nav, 'time) PackedNavBits" where
  "reset_num_bits p new_bits_used = p\<lparr> bits_used := new_bits_used \<rparr>"


subsection \<open>Copy constructor and addPackedNavBits\<close>

text \<open>
  The copy loops \<^verbatim>\<open>for (i = 0; i < n; i++) dst[i + offset] = src[i]\<close> of the copy
  constructor (offset 0) and of \<^verbatim>\<open>addPackedNavBits\<close>.
\<close>

definition copy_cells :: "bool list \<Rightarrow> nat \<Rightarrow> nat \<Rightarrow> bool list \<Rightarrow> bool list" where
  "copy_cells src n offset dst = fold (\<lambda>i d. d[i + offset := src ! i]) [0 ..< n] dst"

text \<open>
  The copy constructor (lines 117-132), which \<^verbatim>\<open>clone\<close> (lines 151-154) calls. The new
  vector starts empty, is resized to \<^verbatim>\<open>bits_used\<close> and receives the first
  \<^verbatim>\<open>bits_used\<close> cells of the original; reading the original past its storage is
  undefined.
\<close>

definition clone ::
  "('sat, 'obs, 'nav, 'time) PackedNavBits \<Rightarrow> failure + ('sat, 'obs, 'nav, 'time) PackedNavBits" where
  "clone right =
     (case vector_resize [] (bits_used right) of
        Inl e \<Rightarrow> Inl e
      | Inr bs \<Rightarrow>
          if int (length (bits right)) < bits_used right then Inl UndefinedBehaviour
          else Inr \<lparr> satSys = satSys right, obsID = obsID right, navID = navID right,
                     rxID = rxID right, transmitTime = transmitTime right,
                     parityStatus = parityStatus right,
                     bits = copy_cells (bits right) (nat (bits_used right)) 0 bs,
                     bits_used = bits_used right, xMitCoerced = xMitCoerced right \<rparr>)"

text \<open>
  \<^verbatim>\<open>addPackedNavBits\<close> (lines 596-607), for a \<^verbatim>\<open>right\<close> that is another object than
  \<^verbatim>\<open>*this\<close>. The source has no capacity check and no \<^verbatim>\<open>throw\<close>: the storage is
  resized to the new \<^verbatim>\<open>bits_used\<close>. The copy loop is defined when the old
  \<^verbatim>\<open>bits_used\<close> is not negative and \<^verbatim>\<open>right\<close> holds the cells it is read at.
\<close>

definition addPackedNavBits ::
  "('sat, 'obs, 'nav, 'time) PackedNavBits \<Rightarrow> ('sat, 'obs, 'nav, 'time) PackedNavBits \<Rightarrow>
     failure + ('sat, 'obs, 'nav, 'time) PackedNavBits" where
  "addPackedNavBits p right =
     (let old_bits_used = bits_used p; new_bits_used = old_bits_used + bits_used right in
      case vector_resize (bits p) new_bits_used of
        Inl e \<Rightarrow> Inl e
      | Inr bs \<Rightarrow>
          if 0 < bits_used right \<and>
             (old_bits_used < 0 \<or> int (length (bits right)) < bits_used right)
          then Inl UndefinedBehaviour
          else Inr (p\<lparr> bits := copy_cells (bits right) (nat (bits_used right))
                                   (nat old_bits_used) bs,
                       bits_used := new_bits_used \<rparr>))"

subsection \<open>Ordering\<close>

text \<open>
  The scan of \<^verbatim>\<open>operator<\<close> (lines 652-664) from index \<open>i\<close>, over two vectors of the
  same size.
\<close>

function less_scan :: "bool list \<Rightarrow> bool list \<Rightarrow> nat \<Rightarrow> bool" where
  "less_scan l r i =
     (if i < length l then
        (if l ! i = False \<and> r ! i = True then True
         else if l ! i = True \<and> r ! i = False then False
         else less_scan l r (Suc i))
      else False)"
  by pat_completeness auto
termination
  by (relation "measure (\<lambda>(l, r, i). length l - i)") auto

declare less_scan.simps [simp del]

text \<open>\<^verbatim>\<open>operator<\<close> (lines 639-665): it compares the sizes of the storage vectors.\<close>

definition operator_less ::
  "('sat, 'obs, 'nav, 'time) PackedNavBits \<Rightarrow> ('sat, 'obs, 'nav, 'time) PackedNavBits \<Rightarrow> bool" where
  "operator_less p right =
     (if length (bits p) \<noteq> length (bits right)
      then (if length (bits p) < length (bits right) then True else False)
      else less_scan (bits p) (bits right) 0)"

subsection \<open>Matching and equality\<close>

text \<open>
  What \<^verbatim>\<open>matchMetaData\<close> uses of the identifier and time types: the difference of two
  \<^verbatim>\<open>CommonTime\<close> values in seconds and the \<^verbatim>\<open>operator!=\<close> of \<^verbatim>\<open>SatID\<close> and of
  \<^verbatim>\<open>ObsID\<close> (whose equality treats the \<^verbatim>\<open>Any\<close> codes as wildcards). The nav type and
  the receiver string are compared structurally.
\<close>

record ('sat, 'obs, 'time) collaborators =
  timeDiff :: "'time \<Rightarrow> 'time \<Rightarrow> real"
  satNE :: "'sat \<Rightarrow> 'sat \<Rightarrow> bool"
  obsNE :: "'obs \<Rightarrow> 'obs \<Rightarrow> bool"

text \<open>
  Modelled from the spec: the flag constants and the default arguments of \<^verbatim>\<open>match\<close> are
  declared in \<^verbatim>\<open>PackedNavBits.hpp\<close>, which is not among the sources. The spec says that
  the flags select which of time, satellite, observation id, source label and nav type
  are compared, and that \<open>equals\<close> compares under all flags and over all bits.
\<close>

definition mmTIME :: "32 word" where "mmTIME = 0x0001"
definition mmSAT :: "32 word" where "mmSAT = 0x0002"
definition mmOBS :: "32 word" where "mmOBS = 0x0004"
definition mmRX :: "32 word" where "mmRX = 0x0008"
definition mmNAV :: "32 word" where "mmNAV = 0x0010"
definition mmALL :: "32 word" where "mmALL = 0xFFFF"

text \<open>The binary64 value of the literal \<^verbatim>\<open>0.001\<close>.\<close>

definition double_0_001 :: real where
  "double_0_001 = 1152921504606847 / 2 ^ 60"

text \<open>\<^verbatim>\<open>matchMetaData\<close> (lines 917-942).\<close>

definition matchMetaData ::
  "('sat, 'obs, 'time) collaborators \<Rightarrow> ('sat, 'obs, 'nav, 'time) PackedNavBits \<Rightarrow>
     ('sat, 'obs, 'nav, 'time) PackedNavBits \<Rightarrow> 32 word \<Rightarrow> bool" where
  "matchMetaData ops p right flagBits =
     (if flagBits AND mmTIME \<noteq> 0
         \<and> \<bar>timeDiff ops (transmitTime right) (transmitTime p)\<bar> > double_0_001 then False
      else if flagBits AND mmSAT \<noteq> 0 \<and> satNE ops (satSys p) (satSys right) then False
      else if flagBits AND mmOBS \<noteq> 0 \<and> obsNE ops (obsID p) (obsID right) then False
      else if flagBits AND mmRX \<noteq> 0 \<and> rxID p \<noteq> rxID right then False
      else if flagBits AND mmNAV \<noteq> 0 \<and> navID p \<noteq> navID right then False
      else True)"

text \<open>Conversion to \<^verbatim>\<open>short\<close>: reduction to the signed 16-bit range.\<close>

definition short_of :: "int \<Rightarrow> int" where
  "short_of i = (i + 2 ^ 15) mod 2 ^ 16 - 2 ^ 15"

text \<open>
  The loop of \<^verbatim>\<open>matchBits\<close> (lines 960-966); the cell reads are unchecked vector
  accesses.
\<close>

function matchBits_loop :: "bool list \<Rightarrow> bool list \<Rightarrow> int \<Rightarrow> int \<Rightarrow> failure + bool" where
  "matchBits_loop l r i endBit =
     (if i \<le> endBit then
        (if i < 0 \<or> int (length l) \<le> i then Inl UndefinedBehaviour
         else if l ! nat i \<noteq> r ! nat i then Inr False
         else matchBits_loop l r (i + 1) endBit)
      else Inr True)"
  by pat_completeness auto
termination
  by (relation "measure (\<lambda>(l, r, i, endBit). nat (endBit + 1 - i))") auto

declare matchBits_loop.simps [simp del]

text \<open>
  \<^verbatim>\<open>matchBits\<close> (lines 944-968). \<^verbatim>\<open>bits.size()-1\<close> is assigned to a \<^verbatim>\<open>short\<close>.
\<close>

definition matchBits ::
  "('sat, 'obs, 'nav, 'time) PackedNavBits \<Rightarrow> ('sat, 'obs, 'nav, 'time) PackedNavBits \<Rightarrow>
     int \<Rightarrow> int \<Rightarrow> failure + bool" where
  "matchBits p right startBitA endBitA =
     (if length (bits p) \<noteq> length (bits right) then Inr False
      else
        let n = int (length (bits p));
            endBit = (if endBitA = - 1 \<or> endBitA \<ge> n then short_of (n - 1) else endBitA);
            startBit0 = (if startBitA < 0 then 0 else startBitA);
            startBit = (if startBit0 \<ge> n then short_of (n - 1) else startBit0)
        in matchBits_loop (bits p) (bits right) startBit endBit)"

text \<open>\<^verbatim>\<open>match\<close> (lines 907-915).\<close>

definition match ::
  "('sat, 'obs, 'time) collaborators \<Rightarrow> ('sat, 'obs, 'nav, 'time) PackedNavBits \<Rightarrow>
     ('sat, 'obs, 'nav, 'time) PackedNavBits \<Rightarrow> int \<Rightarrow> int \<Rightarrow> 32 word \<Rightarrow> failure + bool" where
  "match ops p right startBit endBit flagBits =
     (if \<not> matchMetaData ops p right flagBits then Inr False
      else case matchBits p right startBit endBit of
        Inl e \<Rightarrow> Inl e
      | Inr b \<Rightarrow> (if \<not> b then Inr False else Inr True))"

text \<open>
  \<^verbatim>\<open>operator==\<close> (lines 900-905): \<^verbatim>\<open>match(right)\<close> with the default arguments
  (all bits, all metadata).
\<close>

definition operator_eq ::
  "('sat, 'obs, 'time) collaborators \<Rightarrow> ('sat, 'obs, 'nav, 'time) PackedNavBits \<Rightarrow>
     ('sat, 'obs, 'nav, 'time) PackedNavBits \<Rightarrow> failure + bool" where
  "operator_eq ops p right = match ops p right 0 (- 1) mmALL"

subsection \<open>Strings: addString\<close>

text \<open>The character test of \<^verbatim>\<open>addString\<close> (lines 579-581), on the byte value.\<close>

definition validChar :: "char \<Rightarrow> bool" where
  "validChar ch =
     (let c = (of_char ch :: nat) in
      (of_char (CHR ''A'') \<le> c \<and> c \<le> of_char (CHR ''Z'')) \<or>
      (of_char (CHR ''0'') \<le> c \<and> c \<le> of_char (CHR '':'')) \<or>
      of_char (CHR '' '') = c \<or> of_char (CHR 0x22) = c \<or> of_char (CHR 0x27) = c \<or>
      of_char (CHR ''+'') = c \<or>
      (of_char (CHR ''-'') \<le> c \<and> c \<le> of_char (CHR ''/'')) \<or>
      0xF8 = c)"

definition invalidCharMessage :: string where
  "invalidCharMessage =
     ''Invalid character '' @ [CHR 0x27] @ ''<< ch <<'' @ [CHR 0x27] @ '' in text string. ''"

text \<open>
  A method that throws after it has changed the buffer returns the exception together
  with the buffer as it is at the throw.

  The copy loop of \<^verbatim>\<open>addString\<close> (lines 575-590), over the characters still to copy.
\<close>

fun addString_copy ::
  "('sat, 'obs, 'nav, 'time) PackedNavBits \<Rightarrow> string \<Rightarrow>
     (failure \<times> ('sat, 'obs, 'nav, 'time) PackedNavBits) + ('sat, 'obs, 'nav, 'time) PackedNavBits" where
  "addString_copy p [] = Inr p"
| "addString_copy p (ch # rest) =
     (if \<not> validChar ch then Inl (InvalidParameter invalidCharMessage, p)
      else case addUint64_t p (of_char ch) 8 of
        Inl e \<Rightarrow> Inl (e, p)
      | Inr p' \<Rightarrow> addString_copy p' rest)"

text \<open>The padding loop (lines 591-593).\<close>

fun addString_pad ::
  "('sat, 'obs, 'nav, 'time) PackedNavBits \<Rightarrow> nat \<Rightarrow>
     (failure \<times> ('sat, 'obs, 'nav, 'time) PackedNavBits) + ('sat, 'obs, 'nav, 'time) PackedNavBits" where
  "addString_pad p 0 = Inr p"
| "addString_pad p (Suc n) =
     (case addUint64_t p 0x20 8 of
        Inl e \<Rightarrow> Inl (e, p)
      | Inr p' \<Rightarrow> addString_pad p' n)"

text \<open>\<^verbatim>\<open>addString\<close> (lines 555-594).\<close>

definition addString ::
  "('sat, 'obs, 'nav, 'time) PackedNavBits \<Rightarrow> string \<Rightarrow> int \<Rightarrow>
     (failure \<times> ('sat, 'obs, 'nav, 'time) PackedNavBits) + ('sat, 'obs, 'nav, 'time) PackedNavBits" where
  "addString p String numChars =
     (let len = int (length String);
          numToCopy = (if numChars < len then numChars
                       else if numChars > len then len else numChars);
          numPadBlanks = (if numChars < len then 0
                          else if numChars > len then numChars - len else 0)
      in case addString_copy p (take (nat numToCopy) String) of
           Inl e \<Rightarrow> Inl e
         | Inr p' \<Rightarrow> addString_pad p' (nat numPadBlanks))"

text \<open>
  \<^verbatim>\<open>asString\<close> (lines 331-344): the result starts with one space, then one character
  per 8 bits.
\<close>

fun asString_loop ::
  "('sat, 'obs, 'nav, 'time) PackedNavBits \<Rightarrow> int \<Rightarrow> nat \<Rightarrow> string \<Rightarrow> failure + string" where
  "asString_loop p currentStart 0 out = Inr out"
| "asString_loop p currentStart (Suc n) out =
     (case asUint64_t p currentStart 8 of
        Inl e \<Rightarrow> Inl e
      | Inr temp \<Rightarrow> asString_loop p (currentStart + 8) n (out @ [char_of (unat temp)]))"

definition asString ::
  "('sat, 'obs, 'nav, 'time) PackedNavBits \<Rightarrow> int \<Rightarrow> int \<Rightarrow> failure + string" where
  "asString p startBit numChars = asString_loop p startBit (nat numChars) '' ''"

subsection \<open>Text import: rawBitInput\<close>

















subsection \<open>Round trips\<close>

text \<open>
  The round trip of the spec's testable properties: a value is packed at the end of the
  used bits and read back from that position with the same width and scale.
\<close>

definition addThenAsUnsignedLong ::
  "('sat, 'obs, 'nav, 'time) PackedNavBits \<Rightarrow> 64 word \<Rightarrow> int \<Rightarrow> int \<Rightarrow> failure + 64 word" where
  "addThenAsUnsignedLong p v numBits scale =
     (case addUnsignedLong p v numBits scale of
        Inl e \<Rightarrow> Inl e
      | Inr p' \<Rightarrow> asUnsignedLong p' (bits_used p) numBits scale)"

subsection \<open>Notions of the specification\<close>

text \<open>
  The words of the specification about bit patterns, for the statements below.
  \<open>msb_bits n v\<close> is the field of width \<open>n\<close> holding the low \<open>n\<close> bits of \<open>v\<close>, most
  significant bit first; \<open>char_bits\<close> is the 8-bit field of a character;
  \<open>overwrite bs i xs\<close> is the storage \<open>bs\<close> with the cells from position \<open>i\<close> on
  replaced by \<open>xs\<close>.
\<close>

definition msb_bits :: "nat \<Rightarrow> 64 word \<Rightarrow> bool list" where
  "msb_bits n v = map (\<lambda>k. bit v (n - 1 - k)) [0 ..< n]"

definition char_bits :: "char \<Rightarrow> bool list" where
  "char_bits ch = msb_bits 8 (of_char ch)"

definition overwrite :: "bool list \<Rightarrow> nat \<Rightarrow> bool list \<Rightarrow> bool list" where
  "overwrite bs i xs = take i bs @ xs @ drop (i + length xs) bs"

text \<open>
  \<open>bits_value\<close> is the unsigned value of a bit pattern read most significant bit first,
  \<open>signed_bits_value\<close> its two's complement value (the first bit is the sign), and
  \<open>field_bits bs start n\<close> the \<open>n\<close> cells of \<open>bs\<close> from position \<open>start\<close>.
\<close>

definition bits_value :: "bool list \<Rightarrow> nat" where
  "bits_value bs = foldl (\<lambda>a b. 2 * a + of_bool b) 0 bs"

definition signed_bits_value :: "bool list \<Rightarrow> int" where
  "signed_bits_value bs =
     (if bs \<noteq> [] \<and> hd bs then int (bits_value bs) - 2 ^ length bs else int (bits_value bs))"

definition field_bits :: "bool list \<Rightarrow> nat \<Rightarrow> nat \<Rightarrow> bool list" where
  "field_bits bs start n = take n (drop start bs)"




definition hexDigit :: "nat \<Rightarrow> char" where
  "hexDigit d = (if d < 10 then char_of (48 + d) else char_of (55 + d))"

primrec hexDigits :: "nat \<Rightarrow> nat \<Rightarrow> string" where
  "hexDigits 0 x = []"
| "hexDigits (Suc k) x = hexDigits k (x div 16) @ [hexDigit (x mod 16)]"

definition hexWord :: "32 word \<Rightarrow> string" where
  "hexWord w = ''0x'' @ hexDigits 8 (unat w)"




definition word_bits :: "32 word \<Rightarrow> bool list" where
  "word_bits w = msb_bits 32 (ucast w)"

section \<open>Properties\<close>

subsection \<open>Raw extraction\<close>

lemma bit_double_word64: "bit (t * 2 :: 64 word) (Suc k) = (k < 63 \<and> bit t k)"
proof -
  have "bit (2 * t) (Suc k) = (Suc k < 64 \<and> bit t k)"
    by (simp only: bit_double_Suc_iff possible_bit_word len_of_numeral_defs) simp
  then show ?thesis by (simp add: mult.commute)
qed

lemma bit_double_succ_word64: "bit (t * 2 + 1 :: 64 word) (Suc k) = (k < 63 \<and> bit t k)"
proof -
  have "bit (1 + t * 2) (Suc k) = bit (t * 2) (Suc k)"
    by (subst even_bit_succ_iff) simp_all
  then show ?thesis by (simp add: bit_double_word64 add.commute)
qed

lemma asUint64_step_bit:
  "bit (asUint64_step bs t i) j = (if j = 0 then bs ! i else j < 64 \<and> bit t (j - 1))"
proof (cases j)
  case 0
  then show ?thesis by (simp add: asUint64_step_def Let_def bit_0)
next
  case (Suc k)
  then show ?thesis
    by (simp add: asUint64_step_def Let_def bit_double_word64 bit_double_succ_word64)
qed

text \<open>Bit \<open>j\<close> of the accumulator after the cells \<open>s, ..., s + n - 1\<close>.\<close>

lemma asUint64_fold_bit:
  "bit (foldl (asUint64_step bs) 0 [s ..< s + n]) j = (j < 64 \<and> j < n \<and> bs ! (s + n - 1 - j))"
proof (induction n arbitrary: j)
  case 0
  then show ?case by simp
next
  case (Suc n)
  show ?case
  proof (cases j)
    case 0
    then show ?thesis by (simp add: asUint64_step_bit)
  next
    case (Suc k)
    then show ?thesis using Suc.IH [of k] by (auto simp add: asUint64_step_bit)
  qed
qed

lemma size_t_of_nat: "0 \<le> i \<Longrightarrow> i < 2 ^ 64 \<Longrightarrow> size_t_of i = nat i"
  by (simp add: size_t_of_def)

lemma asUint64_t_in_range:
  assumes "0 \<le> startBit" "0 \<le> numBits" "startBit + numBits \<le> int (length (bits p))"
    and "int (length (bits p)) < 2 ^ 64"
  shows "asUint64_t p startBit numBits =
           Inr (foldl (asUint64_step (bits p)) 0 [nat startBit ..< nat startBit + nat numBits])"
proof -
  have "size_t_of (startBit + numBits) = nat startBit + nat numBits"
    using assms by (simp add: size_t_of_nat nat_add_distrib)
  moreover have "size_t_of startBit = nat startBit"
    using assms by (simp add: size_t_of_nat)
  ultimately show ?thesis
    using assms by (simp add: asUint64_t_def Let_def)
qed

lemma asUint64_t_out_of_range:
  assumes "0 \<le> startBit" "0 \<le> numBits" "int (length (bits p)) < startBit + numBits"
    and "startBit + numBits < 2 ^ 64"
  shows "asUint64_t p startBit numBits = Inl (InvalidParameter ''Requested bits not present.'')"
proof -
  have "size_t_of (startBit + numBits) = nat (startBit + numBits)"
    using assms by (simp add: size_t_of_nat)
  then show ?thesis
    using assms by (simp add: asUint64_t_def Let_def)
qed

text \<open>
  Claim C1, as the code has it. For a start and a width that are not negative (and whose
  sum fits an \<^verbatim>\<open>int\<close>), \<open>asUint64_t\<close> throws exactly when \<open>startBit + numBits\<close>
  exceeds the size of the storage vector: \<open>bits_used\<close> is not consulted. Otherwise it
  returns the word whose bit \<open>j\<close>, for \<open>j < numBits\<close>, is the cell
  \<open>startBit + numBits - 1 - j\<close> (the cells are read most significant first into the low
  bits), every higher bit being clear.
\<close>

theorem asUint64_t_bound_is_storage_size:
  assumes "0 \<le> startBit" and "0 \<le> numBits" and "startBit + numBits < 2 ^ 31"
    and "length (bits p) < 2 ^ 31"
  shows "(asUint64_t p startBit numBits = Inl (InvalidParameter ''Requested bits not present.'')
            \<longleftrightarrow> int (length (bits p)) < startBit + numBits) \<and>
         (startBit + numBits \<le> int (length (bits p)) \<longrightarrow>
            (\<exists>w. asUint64_t p startBit numBits = Inr w \<and>
                 (\<forall>j. bit w j \<longleftrightarrow>
                    j < 64 \<and> j < nat numBits \<and> bits p ! (nat startBit + nat numBits - 1 - j))))"
proof (cases "int (length (bits p)) < startBit + numBits")
  case True
  then show ?thesis
    using assms by (simp add: asUint64_t_out_of_range)
next
  case False
  then have "asUint64_t p startBit numBits =
           Inr (foldl (asUint64_step (bits p)) 0 [nat startBit ..< nat startBit + nat numBits])"
    using assms by (intro asUint64_t_in_range) simp_all
  then show ?thesis
    using False by (simp add: asUint64_fold_bit)
qed

text \<open>
  The theorem at a four-cell buffer: the three cells from index 1 are read as the value
  3, and a request for three cells from index 2 throws.
\<close>

theorem asUint64_t_bound_is_storage_size_witness:
  "asUint64_t (emptyPNB\<lparr> bits := [True, False, True, True] \<rparr>) 2 3
     = Inl (InvalidParameter ''Requested bits not present.'') \<and>
   (\<exists>w. asUint64_t (emptyPNB\<lparr> bits := [True, False, True, True] \<rparr>) 1 3 = Inr w \<and>
        (\<forall>j. bit w j \<longleftrightarrow> j < 64 \<and> j < 3 \<and> [True, False, True, True] ! (1 + 3 - 1 - j)))"
  using asUint64_t_bound_is_storage_size [of 2 3 "emptyPNB\<lparr> bits := [True, False, True, True] \<rparr>"]
    asUint64_t_bound_is_storage_size [of 1 3 "emptyPNB\<lparr> bits := [True, False, True, True] \<rparr>"]
  by simp

text \<open>
  Claim C1 as stated fails: on a fresh buffer no bit is used, yet the request for the
  one cell at index 0 is answered (with 0) instead of being refused.
\<close>

theorem asUint64_t_reads_unused_cells:
  "bits_used emptyPNB = 0 \<and> asUint64_t emptyPNB 0 1 = Inr 0"
  by (simp add: emptyPNB_def PackedNavBits_new_def asUint64_t_def size_t_of_def asUint64_step_def)

subsection \<open>Raw append\<close>

lemma addUint64_loop_length [simp]: "length (addUint64_loop v m ndx n bs) = length bs"
  by (induction n arbitrary: m ndx bs) simp_all

lemma and_exp_word64: "((v :: 64 word) AND 2 ^ n \<noteq> 0) = bit v n"
  by (simp add: and_exp_eq_0_iff_not_bit)

lemma drop_bit_1_exp_word64: "n < 63 \<Longrightarrow> drop_bit 1 (2 ^ Suc n :: 64 word) = 2 ^ n"
  by (simp add: drop_bit_exp_eq possible_bit_word del: power_Suc)

text \<open>
  The cells after the loop: the \<open>n\<close> cells from \<open>ndx\<close> hold the low \<open>n\<close> bits of the
  value, most significant first; the other cells are as before.
\<close>

lemma addUint64_loop_nth:
  "n \<le> 64 \<Longrightarrow> ndx + n \<le> length bs \<Longrightarrow> k < length bs \<Longrightarrow>
   addUint64_loop v (2 ^ (n - 1)) ndx n bs ! k =
     (if ndx \<le> k \<and> k < ndx + n then bit v (ndx + n - 1 - k) else bs ! k)"
proof (induction n arbitrary: ndx bs)
  case 0
  then show ?case by auto
next
  case (Suc n)
  show ?case
  proof (cases n)
    case 0
    then show ?thesis
      using Suc.prems and_exp_word64 [of v 0]
      by (cases "k = ndx") (auto simp add: nth_list_update)
  next
    case (Suc m)
    have m: "m < 63" using Suc Suc.prems by simp
    have "addUint64_loop v (2 ^ (Suc n - 1)) ndx (Suc n) bs
            = addUint64_loop v (2 ^ (n - 1)) (Suc ndx) n (bs[ndx := bit v n])"
      using Suc drop_bit_1_exp_word64 [OF m] and_exp_word64 [of v n]
      by (simp del: power_Suc)
    moreover have "addUint64_loop v (2 ^ (n - 1)) (Suc ndx) n (bs[ndx := bit v n]) ! k =
       (if Suc ndx \<le> k \<and> k < Suc ndx + n then bit v (Suc ndx + n - 1 - k)
        else (bs[ndx := bit v n]) ! k)"
      using Suc.prems by (intro Suc.IH) simp_all
    ultimately show ?thesis
      using Suc.prems by (auto simp add: nth_list_update)
  qed
qed

lemma pack_then_extract:
  assumes "1 \<le> n" "n \<le> 64" "ndx + n \<le> length bs"
  shows "foldl (asUint64_step (addUint64_loop v (2 ^ (n - 1)) ndx n bs)) 0 [ndx ..< ndx + n]
           = take_bit n v"
proof (rule bit_word_eqI)
  fix j assume j: "j < LENGTH(64)"
  show "bit (foldl (asUint64_step (addUint64_loop v (2 ^ (n - 1)) ndx n bs)) 0 [ndx ..< ndx + n]) j
     = bit (take_bit n v) j"
  proof (cases "j < n")
    case True
    then have "addUint64_loop v (2 ^ (n - 1)) ndx n bs ! (ndx + n - 1 - j) = bit v j"
      using assms by (subst addUint64_loop_nth) auto
    then show ?thesis
      using True j by (simp add: asUint64_fold_bit bit_take_bit_iff)
  next
    case False
    then show ?thesis by (simp add: asUint64_fold_bit bit_take_bit_iff)
  qed
qed

subsection \<open>The limit of addUnsignedLong\<close>

lemma bitlen_le: "x < 2 ^ k \<Longrightarrow> bitlen x \<le> k"
proof (induction k arbitrary: x)
  case 0
  then show ?case by (simp add: bitlen.simps)
next
  case (Suc k)
  then have "x div 2 < 2 ^ k" by simp
  then have "bitlen (x div 2) \<le> k" by (rule Suc.IH)
  then show ?case by (subst bitlen.simps) simp
qed

lemma round_binary64_exact: "x < 2 ^ 53 \<Longrightarrow> round_binary64 x = x"
  using bitlen_le [of x 53] by (simp add: round_binary64_def)

lemma round_binary64_pow2_minus_1:
  assumes "54 \<le> n" "n \<le> 63"
  shows "round_binary64 (2 ^ n - 1) = 2 ^ n"
proof -
  have "n = 54 \<or> n = 55 \<or> n = 56 \<or> n = 57 \<or> n = 58 \<or> n = 59 \<or> n = 60 \<or> n = 61
          \<or> n = 62 \<or> n = 63"
    using assms by arith
  then show ?thesis
    by (elim disjE) (simp_all add: round_binary64_def bitlen.simps Let_def)
qed

lemma unat_of_nat_word64: "x < 2 ^ 64 \<Longrightarrow> unat (word_of_nat x :: 64 word) = x"
  by (simp add: unat_of_nat)

lemma pow2_nat_bound: "numBits \<le> 63 \<Longrightarrow> (2::nat) ^ nat numBits < 2 ^ 64"
  by (intro power_strict_increasing) simp_all

lemma pow2_minus_1_small:
  assumes "1 \<le> numBits" "numBits \<le> 53"
  shows "pow2_minus_1 numBits = Inr (word_of_nat (2 ^ nat numBits - 1))"
proof -
  have "(2::nat) ^ nat numBits \<le> 2 ^ 53"
    using assms by (intro power_increasing) simp_all
  then have "(2::nat) ^ nat numBits - 1 < 2 ^ 53"
    by (simp add: less_le_trans [of "2 ^ nat numBits - 1" "2 ^ nat numBits"])
  then have "round_binary64 (2 ^ nat numBits - 1) = 2 ^ nat numBits - 1"
    by (rule round_binary64_exact)
  then show ?thesis
    using assms by (simp add: pow2_minus_1_def)
qed

lemma pow2_minus_1_large:
  assumes "54 \<le> numBits" "numBits \<le> 63"
  shows "pow2_minus_1 numBits = Inr (word_of_nat (2 ^ nat numBits))"
proof -
  have "round_binary64 (2 ^ nat numBits - 1) = 2 ^ nat numBits"
    using assms by (intro round_binary64_pow2_minus_1) simp_all
  then show ?thesis
    using assms by (simp add: pow2_minus_1_def)
qed

text \<open>Below \<open>2^numBits\<close> nothing is refused, whatever the rounding of the limit.\<close>

lemma pow2_minus_1_admits:
  assumes "1 \<le> numBits" "numBits \<le> 63" "unat out < 2 ^ nat numBits"
  shows "\<exists>test. pow2_minus_1 numBits = Inr test \<and> \<not> out > test"
proof (cases "numBits \<le> 53")
  case True
  have eq: "unat (word_of_nat (2 ^ nat numBits - 1) :: 64 word) = 2 ^ nat numBits - 1"
    using pow2_nat_bound [of numBits] assms by (intro unat_of_nat_word64) simp
  have "unat out \<le> unat (word_of_nat (2 ^ nat numBits - 1) :: 64 word)"
    unfolding eq using assms by simp
  then show ?thesis
    using True assms by (simp add: pow2_minus_1_small word_le_nat_alt not_less)
next
  case False
  have eq: "unat (word_of_nat (2 ^ nat numBits) :: 64 word) = 2 ^ nat numBits"
    using pow2_nat_bound [of numBits] assms by (intro unat_of_nat_word64) simp
  have "unat out \<le> unat (word_of_nat (2 ^ nat numBits) :: 64 word)"
    unfolding eq using assms by simp
  then show ?thesis
    using False assms by (simp add: pow2_minus_1_large word_le_nat_alt not_less)
qed

lemma unat_scale: "0 \<le> scale \<Longrightarrow> scale < 2 ^ 64 \<Longrightarrow> unat (word_of_int scale :: 64 word) = nat scale"
  by (simp add: unat_eq_nat_uint uint_word_of_int)

lemma addUint64_t_ok:
  assumes "1 \<le> numBits" "numBits \<le> 64" "0 \<le> bits_used p"
    and "bits_used p + numBits \<le> int (length (bits p))"
  shows "addUint64_t p v numBits =
           Inr (p\<lparr> bits := addUint64_loop v (2 ^ (nat numBits - 1)) (nat (bits_used p))
                                (nat numBits) (bits p),
                     bits_used := bits_used p + numBits \<rparr>)"
  using assms by (simp add: addUint64_t_def nat_diff_distrib)

lemma addUnsignedLong_ok:
  assumes "1 \<le> numBits" "numBits \<le> 63" "1 \<le> scale" "scale < 2 ^ 64"
    and "unat v div nat scale < 2 ^ nat numBits"
  shows "addUnsignedLong p v numBits scale = addUint64_t p (v div word_of_int scale) numBits"
proof -
  have s: "unat (word_of_int scale :: 64 word) = nat scale"
    using assms by (simp add: unat_scale)
  then have nz: "(word_of_int scale :: 64 word) \<noteq> 0"
    using assms by auto
  have "unat (v div word_of_int scale) < 2 ^ nat numBits"
    using assms s by (simp add: unat_div)
  then obtain test where "pow2_minus_1 numBits = Inr test" "\<not> v div word_of_int scale > test"
    using pow2_minus_1_admits assms by blast
  then show ?thesis
    using nz by (simp add: addUnsignedLong_def Let_def)
qed

subsection \<open>Unsigned round trip\<close>

lemma take_bit_word64_self: "unat (w :: 64 word) < 2 ^ n \<Longrightarrow> take_bit n w = w"
  by (rule word_unat_eq_iff [THEN iffD2]) (simp add: unsigned_take_bit_eq take_bit_nat_eq_self)

lemma addThenAsUnsignedLong_eq:
  assumes "1 \<le> numBits" "numBits \<le> 63" "1 \<le> scale" "scale < 2 ^ 31"
    and "0 \<le> bits_used p" "bits_used p + numBits \<le> int (length (bits p))"
    and "length (bits p) < 2 ^ 31"
    and "unat v div nat scale < 2 ^ nat numBits"
  shows "addThenAsUnsignedLong p v numBits scale
           = Inr ((v div word_of_int scale) * word_of_int scale)"
proof -
  let ?out = "v div word_of_int scale"
  let ?p' = "p\<lparr> bits := addUint64_loop ?out (2 ^ (nat numBits - 1)) (nat (bits_used p))
                                (nat numBits) (bits p),
                     bits_used := bits_used p + numBits \<rparr>"
  have s: "unat (word_of_int scale :: 64 word) = nat scale"
    using assms by (simp add: unat_scale)
  have out: "unat ?out < 2 ^ nat numBits"
    using assms s by (simp add: unat_div)
  have "addUnsignedLong p v numBits scale = addUint64_t p ?out numBits"
    using assms by (intro addUnsignedLong_ok) simp_all
  also have "\<dots> = Inr ?p'"
    using assms by (intro addUint64_t_ok) simp_all
  finally have pack: "addUnsignedLong p v numBits scale = Inr ?p'" .
  have "asUint64_t ?p' (bits_used p) numBits =
          Inr (foldl (asUint64_step (bits ?p')) 0
                 [nat (bits_used p) ..< nat (bits_used p) + nat numBits])"
    using assms by (intro asUint64_t_in_range) simp_all
  also have "foldl (asUint64_step (bits ?p')) 0
                 [nat (bits_used p) ..< nat (bits_used p) + nat numBits] = take_bit (nat numBits) ?out"
    using assms pack_then_extract [of "nat numBits" "nat (bits_used p)" "bits p" ?out]
    by simp
  also have "take_bit (nat numBits) ?out = ?out"
    using out by (rule take_bit_word64_self)
  finally show ?thesis
    using pack by (simp add: addThenAsUnsignedLong_def asUnsignedLong_def)
qed

lemma emptyPNB_simps [simp]:
  "bits emptyPNB = replicate 900 False" "bits_used emptyPNB = 0"
  by (simp_all add: emptyPNB_def PackedNavBits_new_def)

text \<open>
  Claim C3, as the code has it. For a width from 1 to 63, a scale of at least 1 and a
  value whose quotient by the scale fits the width, packing at the end of the used bits
  (inside the storage) and unpacking from there returns the quotient times the scale:
  the value itself when the scale is 1, and otherwise a result that is at most the value
  and less than one scale below it. (At width 64 the limit \<^verbatim>\<open>pow(2,64) - 1\<close> does
  not convert to \<^verbatim>\<open>uint64_t\<close>; nothing is stated there.)
\<close>

theorem unsigned_round_trip_truncates:
  assumes "1 \<le> numBits" and "numBits \<le> 63" and "1 \<le> scale" and "scale < 2 ^ 31"
    and "0 \<le> bits_used p" and "bits_used p + numBits \<le> int (length (bits p))"
    and "length (bits p) < 2 ^ 31"
    and "unat v div nat scale < 2 ^ nat numBits"
  shows "\<exists>r. addThenAsUnsignedLong p v numBits scale = Inr r \<and>
             unat r = unat v div nat scale * nat scale \<and>
             (scale = 1 \<longrightarrow> r = v) \<and>
             unat r \<le> unat v \<and> unat v - unat r < nat scale"
proof -
  let ?r = "(v div word_of_int scale) * (word_of_int scale :: 64 word)"
  have s: "unat (word_of_int scale :: 64 word) = nat scale"
    using assms by (simp add: unat_scale)
  have "unat v div nat scale * nat scale \<le> unat v"
    by simp
  also have "unat v < 2 ^ 64"
    using unsigned_less [of v] by simp
  finally have "unat (v div word_of_int scale) * unat (word_of_int scale :: 64 word) < 2 ^ LENGTH(64)"
    using s by (simp add: unat_div)
  then have r: "unat ?r = unat v div nat scale * nat scale"
    using s by (simp add: unat_mult_lem [THEN iffD1] unat_div)
  have pos: "0 < nat scale" using assms by simp
  have "unat v - unat ?r = unat v mod nat scale"
    unfolding r by (simp add: minus_div_mult_eq_mod)
  then have "unat v - unat ?r < nat scale"
    using pos by simp
  moreover have "addThenAsUnsignedLong p v numBits scale = Inr ?r"
    using assms by (rule addThenAsUnsignedLong_eq)
  moreover have "scale = 1 \<longrightarrow> ?r = v"
    by simp
  moreover have "unat ?r \<le> unat v"
    unfolding r by simp
  ultimately show ?thesis
    using r by blast
qed

text \<open>The theorem on a fresh buffer: 13 packed in 4 bits with scale 1 is read back as 13.\<close>

theorem unsigned_round_trip_truncates_witness:
  "\<exists>r. addThenAsUnsignedLong emptyPNB 13 4 1 = Inr r \<and> r = 13"
  using unsigned_round_trip_truncates [of 4 1 emptyPNB 13]
  by simp

text \<open>
  Claim C3 as stated fails: 7 packed in 3 bits with scale 4 is read back as 4, which is
  3 away from 7, more than half the scale.
\<close>

theorem unsigned_round_trip_not_within_half_scale:
  "addThenAsUnsignedLong emptyPNB 7 3 4 = Inr 4 \<and> (4 :: int) div 2 < \<bar>4 - 7\<bar>"
  using addThenAsUnsignedLong_eq [of 3 4 emptyPNB 7]
  by simp

subsection \<open>Overflow rejection\<close>

lemma addUint64_loop_clear:
  assumes "n \<le> 64" "ndx + n \<le> length bs" "\<And>k. k < n \<Longrightarrow> \<not> bit v k"
    and "\<And>k. ndx \<le> k \<Longrightarrow> k < ndx + n \<Longrightarrow> \<not> bs ! k"
  shows "addUint64_loop v (2 ^ (n - 1)) ndx n bs = bs"
proof (rule nth_equalityI)
  show "length (addUint64_loop v (2 ^ (n - 1)) ndx n bs) = length bs" by simp
next
  fix i assume "i < length (addUint64_loop v (2 ^ (n - 1)) ndx n bs)"
  then have i: "i < length bs" by simp
  show "addUint64_loop v (2 ^ (n - 1)) ndx n bs ! i = bs ! i"
  proof (cases "ndx \<le> i \<and> i < ndx + n")
    case True
    then have "ndx + n - 1 - i < n" by arith
    then have "\<not> bit v (ndx + n - 1 - i)" by (rule assms(3))
    moreover have "\<not> bs ! i" using True by (intro assms(4)) simp_all
    ultimately show ?thesis
      unfolding addUint64_loop_nth [OF assms(1,2) i] using True by simp
  next
    case False
    then show ?thesis
      unfolding addUint64_loop_nth [OF assms(1,2) i] by auto
  qed
qed

lemma bit_2p54: "bit (2 ^ 54 :: 64 word) j = (j = 54)"
  by (simp only: bit_exp_iff possible_bit_word) auto

text \<open>
  Claim C2 on the code. The limit for 54 bits is \<open>2^54\<close>, not \<open>2^54 - 1\<close>: the
  difference \<^verbatim>\<open>pow(2.0, 54) - 1\<close> is not a binary64 value and rounds to \<open>2^54\<close>. So
  the value \<open>2^54\<close> is accepted for a 54-bit field, and its low 54 bits (all zero) are
  appended.
\<close>

theorem addUnsignedLong_accepts_2p54:
  "addUnsignedLong emptyPNB (2 ^ 54) 54 1 = Inr (emptyPNB\<lparr> bits_used := 54 \<rparr>)"
proof -
  have "addUint64_loop (2 ^ 54) (2 ^ (54 - 1)) 0 54 (replicate 900 False) = replicate 900 False"
  proof (rule addUint64_loop_clear)
    fix k :: nat
    assume "k < 54"
    then show "\<not> bit (2 ^ 54 :: 64 word) k" by (simp only: bit_2p54)
  qed simp_all
  moreover have "pow2_minus_1 54 = Inr (word_of_nat (2 ^ nat 54))"
    by (rule pow2_minus_1_large) simp_all
  ultimately show ?thesis
    by (simp add: addUnsignedLong_def addUint64_t_def)
qed

text \<open>
  Up to 53 bits the limit is exact, and the value is refused exactly when its quotient
  by the scale exceeds \<open>2^numBits - 1\<close>.
\<close>

lemma addUnsignedLong_rejects_iff:
  assumes "1 \<le> numBits" "numBits \<le> 53" "1 \<le> scale" "scale < 2 ^ 31"
  shows "addUnsignedLong p v numBits scale
           = Inl (InvalidParameter ''Scaled value too large for specifed bit length'')
         \<longleftrightarrow> 2 ^ nat numBits - 1 < unat v div nat scale"
proof -
  have s: "unat (word_of_int scale :: 64 word) = nat scale"
    using assms by (simp add: unat_scale)
  then have nz: "(word_of_int scale :: 64 word) \<noteq> 0"
    using assms by auto
  have eq: "unat (word_of_nat (2 ^ nat numBits - 1) :: 64 word) = 2 ^ nat numBits - 1"
    using pow2_nat_bound [of numBits] assms by (intro unat_of_nat_word64) simp
  have t: "pow2_minus_1 numBits = Inr (word_of_nat (2 ^ nat numBits - 1))"
    using assms(1,2) by (rule pow2_minus_1_small)
  have "(word_of_nat (2 ^ nat numBits - 1) < v div word_of_int scale)
          \<longleftrightarrow> 2 ^ nat numBits - 1 < unat v div nat scale"
    unfolding word_less_nat_alt eq by (simp add: unat_div s)
  then show ?thesis
    using nz t by (simp add: addUnsignedLong_def Let_def addUint64_t_def)
qed

subsection \<open>reset_num_bits\<close>

text \<open>
  Claim C10. \<open>reset_num_bits\<close> stores the given value in \<open>bits_used\<close>, whatever it
  is (negative, or beyond the capacity or the storage size), and changes neither a cell,
  nor the size of the storage, nor an identifier, the receiver label, the transmit time
  or the parity status.
\<close>

theorem reset_num_bits_sets_counter_only:
  "bits_used (reset_num_bits p n) = n \<and>
   bits (reset_num_bits p n) = bits p \<and>
   satSys (reset_num_bits p n) = satSys p \<and>
   obsID (reset_num_bits p n) = obsID p \<and>
   navID (reset_num_bits p n) = navID p \<and>
   rxID (reset_num_bits p n) = rxID p \<and>
   transmitTime (reset_num_bits p n) = transmitTime p \<and>
   parityStatus (reset_num_bits p n) = parityStatus p \<and>
   xMitCoerced (reset_num_bits p n) = xMitCoerced p"
  by (simp add: reset_num_bits_def)

text \<open>
  On a fresh buffer the counter takes the value 901 over a storage of 900 cells, and the
  value \<open>-1\<close>.
\<close>

theorem reset_num_bits_sets_counter_only_witness:
  "bits_used (reset_num_bits emptyPNB 901) = 901 \<and>
   length (bits (reset_num_bits emptyPNB 901)) = 900 \<and>
   bits_used (reset_num_bits emptyPNB (- 1)) = - 1"
  using reset_num_bits_sets_counter_only [of emptyPNB 901]
    reset_num_bits_sets_counter_only [of emptyPNB "- 1"]
  by simp

subsection \<open>Copies\<close>

lemma copy_cells_length [simp]: "length (copy_cells src n offset dst) = length dst"
  by (induction n) (simp_all add: copy_cells_def)

lemma copy_cells_nth:
  "offset + n \<le> length dst \<Longrightarrow> k < length dst \<Longrightarrow>
   copy_cells src n offset dst ! k =
     (if offset \<le> k \<and> k < offset + n then src ! (k - offset) else dst ! k)"
proof (induction n)
  case 0
  then show ?case by (auto simp add: copy_cells_def)
next
  case (Suc n)
  have "copy_cells src (Suc n) offset dst
          = (copy_cells src n offset dst)[n + offset := src ! n]"
    by (simp add: copy_cells_def)
  then show ?case
    using Suc by (auto simp add: nth_list_update)
qed

lemma copy_cells_append:
  assumes "n \<le> length src" "length dst = offset + n"
  shows "copy_cells src n offset dst = take offset dst @ take n src"
proof (rule nth_equalityI)
  show "length (copy_cells src n offset dst) = length (take offset dst @ take n src)"
    using assms by simp
next
  fix i assume "i < length (copy_cells src n offset dst)"
  then have i: "i < length dst" by simp
  show "copy_cells src n offset dst ! i = (take offset dst @ take n src) ! i"
    using assms i by (simp add: copy_cells_nth nth_append)
qed

lemma clone_eq:
  assumes "0 \<le> bits_used p" "bits_used p \<le> int (length (bits p))"
  shows "clone p = Inr (p\<lparr> bits := take (nat (bits_used p)) (bits p) \<rparr>)"
proof -
  have "copy_cells (bits p) (nat (bits_used p)) 0 (replicate (nat (bits_used p)) False)
          = take (nat (bits_used p)) (bits p)"
    using assms by (subst copy_cells_append) simp_all
  then show ?thesis
    using assms by (simp add: clone_def vector_resize_def)
qed

lemma matchBits_sizes_differ:
  "length (bits p) \<noteq> length (bits q) \<Longrightarrow> matchBits p q startBit endBit = Inr False"
  by (simp add: matchBits_def)

lemma match_sizes_differ:
  "length (bits p) \<noteq> length (bits q) \<Longrightarrow> match ops p q startBit endBit flagBits = Inr False"
  by (simp add: match_def matchBits_sizes_differ)

text \<open>
  Claim C9. For a buffer whose used bits lie inside its storage and whose storage size
  is not \<open>bits_used\<close>, the clone has the same identifiers, label, time, parity status
  and \<open>bits_used\<close>, the same cells below \<open>bits_used\<close>, and a storage of exactly
  \<open>bits_used\<close> cells; \<open>operator==\<close> between the buffer and its clone is false in
  both directions, whatever the comparisons of the identifier types say.
\<close>

theorem clone_of_untrimmed_buffer_is_unequal:
  assumes "0 \<le> bits_used p" and "bits_used p \<le> int (length (bits p))"
    and "int (length (bits p)) \<noteq> bits_used p"
  shows "\<exists>c. clone p = Inr c \<and>
           satSys c = satSys p \<and> obsID c = obsID p \<and> navID c = navID p \<and>
           rxID c = rxID p \<and> transmitTime c = transmitTime p \<and>
           parityStatus c = parityStatus p \<and> xMitCoerced c = xMitCoerced p \<and>
           bits_used c = bits_used p \<and>
           length (bits c) = nat (bits_used p) \<and>
           take (nat (bits_used p)) (bits c) = take (nat (bits_used p)) (bits p) \<and>
           operator_eq ops p c = Inr False \<and> operator_eq ops c p = Inr False"
proof -
  let ?c = "p\<lparr> bits := take (nat (bits_used p)) (bits p) \<rparr>"
  have c: "clone p = Inr ?c"
    using assms(1,2) by (rule clone_eq)
  have len: "length (bits ?c) = nat (bits_used p)"
    using assms by simp
  then have ne: "length (bits p) \<noteq> length (bits ?c)"
    using assms by auto
  have "operator_eq ops p ?c = Inr False"
    unfolding operator_eq_def using ne by (rule match_sizes_differ)
  moreover have "operator_eq ops ?c p = Inr False"
    unfolding operator_eq_def using ne [symmetric] by (rule match_sizes_differ)
  ultimately show ?thesis
    using c len by simp
qed

text \<open>A fresh buffer (900 cells, none used) and its clone (no cell) are unequal.\<close>

theorem clone_of_untrimmed_buffer_is_unequal_witness:
  "\<exists>c. clone emptyPNB = Inr c \<and> bits_used c = 0 \<and> length (bits c) = 0 \<and>
       operator_eq \<lparr> timeDiff = (\<lambda>a b. 0), satNE = (\<noteq>), obsNE = (\<noteq>) \<rparr> emptyPNB c = Inr False"
  using clone_of_untrimmed_buffer_is_unequal
    [of emptyPNB "\<lparr> timeDiff = (\<lambda>a b. 0), satNE = (\<noteq>), obsNE = (\<noteq>) \<rparr>"]
  by auto

subsection \<open>addPackedNavBits\<close>

lemma resize_then_copy:
  assumes "a \<le> length xs" "b \<le> length ys"
  shows "copy_cells ys b a (take (a + b) xs @ replicate (a + b - length xs) False)
           = take a xs @ take b ys"
proof -
  let ?bs = "take (a + b) xs @ replicate (a + b - length xs) False"
  have len: "length ?bs = a + b"
    by (cases "a + b \<le> length xs") simp_all
  have "take a ?bs = take a xs"
    using assms by (simp add: min_def)
  then show ?thesis
    using assms len by (subst copy_cells_append) simp_all
qed

lemma addPackedNavBits_eq:
  assumes "0 \<le> bits_used p" "bits_used p \<le> int (length (bits p))"
    and "0 \<le> bits_used right" "bits_used right \<le> int (length (bits right))"
  shows "addPackedNavBits p right =
           Inr (p\<lparr> bits := take (nat (bits_used p)) (bits p)
                              @ take (nat (bits_used right)) (bits right),
                     bits_used := bits_used p + bits_used right \<rparr>)"
proof -
  have "nat (bits_used p + bits_used right) = nat (bits_used p) + nat (bits_used right)"
    using assms by (simp add: nat_add_distrib)
  moreover have "copy_cells (bits right) (nat (bits_used right)) (nat (bits_used p))
           (take (nat (bits_used p) + nat (bits_used right)) (bits p)
              @ replicate (nat (bits_used p) + nat (bits_used right) - length (bits p)) False)
         = take (nat (bits_used p)) (bits p) @ take (nat (bits_used right)) (bits right)"
    using assms by (intro resize_then_copy) simp_all
  ultimately show ?thesis
    using assms by (simp add: addPackedNavBits_def vector_resize_def Let_def)
qed

text \<open>
  Claim C5, as the code has it. When the used bits of both buffers lie inside their
  storages, \<open>addPackedNavBits\<close> succeeds: the storage becomes the used bits of this
  buffer followed by the used bits of the other one (and nothing more), \<open>bits_used\<close>
  grows by the other's \<open>bits_used\<close>, and nothing else changes. There is no capacity
  check: in no state does the operation throw \<open>InvalidParameter\<close>.
\<close>

theorem addPackedNavBits_appends_unchecked:
  assumes "0 \<le> bits_used p" and "bits_used p \<le> int (length (bits p))"
    and "0 \<le> bits_used right" and "bits_used right \<le> int (length (bits right))"
  shows "addPackedNavBits p right =
           Inr (p\<lparr> bits := take (nat (bits_used p)) (bits p)
                              @ take (nat (bits_used right)) (bits right),
                     bits_used := bits_used p + bits_used right \<rparr>) \<and>
         (\<forall>msg. addPackedNavBits q r \<noteq> Inl (InvalidParameter msg))"
proof -
  have "addPackedNavBits q r \<noteq> Inl (InvalidParameter msg)" for msg
    by (simp add: addPackedNavBits_def vector_resize_def Let_def)
  then show ?thesis
    using addPackedNavBits_eq [OF assms] by simp
qed

text \<open>Two used bits appended to two used bits of a three-cell storage.\<close>

theorem addPackedNavBits_appends_unchecked_witness:
  "addPackedNavBits (emptyPNB\<lparr> bits := [True, False, True], bits_used := 2 \<rparr>)
     (emptyPNB\<lparr> bits := [False, True], bits_used := 2 \<rparr>)
   = Inr (emptyPNB\<lparr> bits := [True, False, False, True], bits_used := 4 \<rparr>)"
  using addPackedNavBits_appends_unchecked
    [of "emptyPNB\<lparr> bits := [True, False, True], bits_used := 2 \<rparr>"
        "emptyPNB\<lparr> bits := [False, True], bits_used := 2 \<rparr>" emptyPNB emptyPNB]
  by simp

text \<open>
  Claim C5 as stated fails: two buffers of 500 used bits each are joined into one of
  1000 used bits; no error is raised although 1000 exceeds 900.
\<close>

theorem addPackedNavBits_grows_beyond_900:
  "map_sum id bits_used
     (addPackedNavBits (reset_num_bits emptyPNB 500) (reset_num_bits emptyPNB 500)) = Inr 1000"
  using addPackedNavBits_eq [of "reset_num_bits emptyPNB 500" "reset_num_bits emptyPNB 500"]
  by (simp add: reset_num_bits_def)

subsection \<open>Ordering\<close>

text \<open>The scan from \<open>i\<close> answers true exactly when the first difference at or after \<open>i\<close> has the left cell clear and the right cell set.\<close>

lemma less_scan_iff:
  "less_scan l r i \<longleftrightarrow>
     (\<exists>k. i \<le> k \<and> k < length l \<and> \<not> l ! k \<and> r ! k \<and> (\<forall>j. i \<le> j \<and> j < k \<longrightarrow> l ! j = r ! j))"
proof (induction l r i rule: less_scan.induct)
  case (1 l r i)
  show ?case
  proof (cases "i < length l")
    case False
    then show ?thesis by (subst less_scan.simps) auto
  next
    case True
    show ?thesis
    proof (cases "l ! i = r ! i")
      case False
      then have "less_scan l r i = (\<not> l ! i \<and> r ! i)"
        using True by (subst less_scan.simps) auto
      moreover have "(\<exists>k. i \<le> k \<and> k < length l \<and> \<not> l ! k \<and> r ! k \<and> (\<forall>j. i \<le> j \<and> j < k \<longrightarrow> l ! j = r ! j))
          = (\<not> l ! i \<and> r ! i)"
      proof
        assume "\<exists>k. i \<le> k \<and> k < length l \<and> \<not> l ! k \<and> r ! k \<and> (\<forall>j. i \<le> j \<and> j < k \<longrightarrow> l ! j = r ! j)"
        then obtain k where k: "i \<le> k" "k < length l" "\<not> l ! k" "r ! k"
          "\<forall>j. i \<le> j \<and> j < k \<longrightarrow> l ! j = r ! j" by blast
        have "k = i"
        proof (rule ccontr)
          assume "k \<noteq> i"
          then have "i < k" using k(1) by simp
          then have "l ! i = r ! i" using k(5) by simp
          then show False using False by simp
        qed
        then show "\<not> l ! i \<and> r ! i" using k by simp
      next
        assume "\<not> l ! i \<and> r ! i"
        then show "\<exists>k. i \<le> k \<and> k < length l \<and> \<not> l ! k \<and> r ! k \<and> (\<forall>j. i \<le> j \<and> j < k \<longrightarrow> l ! j = r ! j)"
          using True by (intro exI [of _ i]) auto
      qed
      ultimately show ?thesis by simp
    next
      case eq: True
      have step: "less_scan l r i = less_scan l r (Suc i)"
        using True eq by (subst less_scan.simps) auto
      have IH: "less_scan l r (Suc i) =
        (\<exists>k. Suc i \<le> k \<and> k < length l \<and> \<not> l ! k \<and> r ! k \<and> (\<forall>j. Suc i \<le> j \<and> j < k \<longrightarrow> l ! j = r ! j))"
        using True eq by (intro 1) auto
      have "(\<exists>k. Suc i \<le> k \<and> k < length l \<and> \<not> l ! k \<and> r ! k \<and> (\<forall>j. Suc i \<le> j \<and> j < k \<longrightarrow> l ! j = r ! j))
          = (\<exists>k. i \<le> k \<and> k < length l \<and> \<not> l ! k \<and> r ! k \<and> (\<forall>j. i \<le> j \<and> j < k \<longrightarrow> l ! j = r ! j))"
      proof
        assume "\<exists>k. Suc i \<le> k \<and> k < length l \<and> \<not> l ! k \<and> r ! k \<and> (\<forall>j. Suc i \<le> j \<and> j < k \<longrightarrow> l ! j = r ! j)"
        then obtain k where k: "Suc i \<le> k" "k < length l" "\<not> l ! k" "r ! k"
          "\<forall>j. Suc i \<le> j \<and> j < k \<longrightarrow> l ! j = r ! j" by blast
        have "\<forall>j. i \<le> j \<and> j < k \<longrightarrow> l ! j = r ! j"
        proof (intro allI impI)
          fix j assume j: "i \<le> j \<and> j < k"
          show "l ! j = r ! j"
          proof (cases "j = i")
            case True
            then show ?thesis using eq by simp
          next
            case False
            then have "Suc i \<le> j \<and> j < k" using j by simp
            then show ?thesis using k(5) by blast
          qed
        qed
        then show "\<exists>k. i \<le> k \<and> k < length l \<and> \<not> l ! k \<and> r ! k \<and> (\<forall>j. i \<le> j \<and> j < k \<longrightarrow> l ! j = r ! j)"
          using k by (intro exI [of _ k]) simp
      next
        assume "\<exists>k. i \<le> k \<and> k < length l \<and> \<not> l ! k \<and> r ! k \<and> (\<forall>j. i \<le> j \<and> j < k \<longrightarrow> l ! j = r ! j)"
        then obtain k where k: "i \<le> k" "k < length l" "\<not> l ! k" "r ! k"
          "\<forall>j. i \<le> j \<and> j < k \<longrightarrow> l ! j = r ! j" by blast
        have "k \<noteq> i" using k(3,4) eq by auto
        then have "Suc i \<le> k" using k(1) by simp
        then show "\<exists>k. Suc i \<le> k \<and> k < length l \<and> \<not> l ! k \<and> r ! k \<and> (\<forall>j. Suc i \<le> j \<and> j < k \<longrightarrow> l ! j = r ! j)"
          using k by (intro exI [of _ k]) simp
      qed
      then show ?thesis using step IH by simp
    qed
  qed
qed

lemma less_scan_0:
  "less_scan l r 0 \<longleftrightarrow> (\<exists>k<length l. \<not> l ! k \<and> r ! k \<and> (\<forall>j<k. l ! j = r ! j))"
  by (simp add: less_scan_iff)

lemma less_scan_irrefl: "\<not> less_scan l l 0"
  by (simp add: less_scan_0)

lemma less_scan_trans:
  assumes "less_scan a b 0" "less_scan b c 0" "length a = length b"
  shows "less_scan a c 0"
proof -
  obtain k1 where k1: "k1 < length a" "\<not> a ! k1" "b ! k1" "\<forall>j<k1. a ! j = b ! j"
    using assms(1) by (auto simp add: less_scan_0)
  obtain k2 where k2: "k2 < length b" "\<not> b ! k2" "c ! k2" "\<forall>j<k2. b ! j = c ! j"
    using assms(2) by (auto simp add: less_scan_0)
  consider "k1 < k2" | "k1 = k2" | "k2 < k1" by arith
  then show ?thesis
  proof cases
    case 1
    then have "\<not> a ! k1 \<and> c ! k1 \<and> (\<forall>j<k1. a ! j = c ! j)"
      using k1 k2 by auto
    then show ?thesis
      using k1(1) unfolding less_scan_0 by blast
  next
    case 2
    then show ?thesis using k1 k2 by simp
  next
    case 3
    then have "\<not> a ! k2 \<and> c ! k2 \<and> (\<forall>j<k2. a ! j = c ! j)"
      using k1 k2 by auto
    moreover have "k2 < length a" using k2(1) assms(3) by simp
    ultimately show ?thesis
      unfolding less_scan_0 by blast
  qed
qed

lemma first_difference:
  assumes "length a = length b" "a \<noteq> b"
  shows "\<exists>k<length a. a ! k \<noteq> b ! k \<and> (\<forall>j<k. a ! j = b ! j)"
proof -
  have ex: "\<exists>k. k < length a \<and> a ! k \<noteq> b ! k"
    using assms by (auto simp add: list_eq_iff_nth_eq)
  define k where "k = (LEAST k. k < length a \<and> a ! k \<noteq> b ! k)"
  have "k < length a \<and> a ! k \<noteq> b ! k"
    unfolding k_def using ex by (rule LeastI_ex)
  moreover have "a ! j = b ! j" if "j < k" for j
  proof (rule ccontr)
    assume "a ! j \<noteq> b ! j"
    moreover have "j < length a" using that \<open>k < length a \<and> a ! k \<noteq> b ! k\<close> by simp
    ultimately have "k \<le> j" unfolding k_def by (intro Least_le) simp
    then show False using that by simp
  qed
  ultimately show ?thesis by blast
qed

lemma less_scan_total:
  assumes "length a = length b" "\<not> less_scan a b 0" "\<not> less_scan b a 0"
  shows "a = b"
proof (rule ccontr)
  assume "a \<noteq> b"
  then obtain k where k: "k < length a" "a ! k \<noteq> b ! k" "\<forall>j<k. a ! j = b ! j"
    using first_difference [OF assms(1)] by blast
  show False
  proof (cases "a ! k")
    case True
    then have "\<not> b ! k \<and> a ! k \<and> (\<forall>j<k. b ! j = a ! j)" using k by auto
    then have "less_scan b a 0" using k(1) assms(1) unfolding less_scan_0 by auto
    then show False using assms(3) by simp
  next
    case False
    then have "\<not> a ! k \<and> b ! k \<and> (\<forall>j<k. a ! j = b ! j)" using k by auto
    then have "less_scan a b 0" using k(1) unfolding less_scan_0 by auto
    then show False using assms(2) by simp
  qed
qed

text \<open>
  Claim C4, as the code has it. \<open>operator<\<close> is a strict weak order on buffers,
  decided by the storage vectors alone: it is irreflexive and transitive, and two buffers
  are incomparable exactly when their storage vectors are identical. When the storage
  sizes differ, the buffer with the smaller storage is less, whatever the cells hold.
  When the storage sizes are equal, a buffer is less exactly when, at the first cell
  where the two storages differ, it has the cell clear and the other one has it set.
  \<open>bits_used\<close> plays no part.
\<close>

theorem operator_less_orders_by_storage:
  "\<not> operator_less a a \<and>
   (operator_less a b \<and> operator_less b c \<longrightarrow> operator_less a c) \<and>
   ((\<not> operator_less a b \<and> \<not> operator_less b a) \<longleftrightarrow> bits a = bits b) \<and>
   (length (bits a) \<noteq> length (bits b) \<longrightarrow>
      (operator_less a b \<longleftrightarrow> length (bits a) < length (bits b))) \<and>
   (length (bits a) = length (bits b) \<longrightarrow>
      (operator_less a b \<longleftrightarrow>
         (\<exists>k<length (bits a). \<not> bits a ! k \<and> bits b ! k \<and> (\<forall>j<k. bits a ! j = bits b ! j))))"
proof (intro conjI)
  show "\<not> operator_less a a"
    by (simp add: operator_less_def less_scan_irrefl)
  show "operator_less a b \<and> operator_less b c \<longrightarrow> operator_less a c"
  proof
    assume h: "operator_less a b \<and> operator_less b c"
    show "operator_less a c"
    proof (cases "length (bits a) = length (bits b) \<and> length (bits b) = length (bits c)")
      case True
      then show ?thesis
        using h less_scan_trans [of "bits a" "bits b" "bits c"]
        by (simp add: operator_less_def)
    next
      case False
      then show ?thesis
        using h by (auto simp add: operator_less_def split: if_splits)
    qed
  qed
  show "(\<not> operator_less a b \<and> \<not> operator_less b a) \<longleftrightarrow> bits a = bits b"
  proof
    assume h: "\<not> operator_less a b \<and> \<not> operator_less b a"
    then have len: "length (bits a) = length (bits b)"
      by (auto simp add: operator_less_def split: if_splits)
    then show "bits a = bits b"
      using h by (intro less_scan_total) (simp_all add: operator_less_def)
  next
    assume "bits a = bits b"
    then show "\<not> operator_less a b \<and> \<not> operator_less b a"
      by (simp add: operator_less_def less_scan_irrefl)
  qed
  show "length (bits a) \<noteq> length (bits b) \<longrightarrow>
      (operator_less a b \<longleftrightarrow> length (bits a) < length (bits b))"
    by (simp add: operator_less_def)
  show "length (bits a) = length (bits b) \<longrightarrow>
      (operator_less a b \<longleftrightarrow>
         (\<exists>k<length (bits a). \<not> bits a ! k \<and> bits b ! k \<and> (\<forall>j<k. bits a ! j = bits b ! j)))"
    by (simp add: operator_less_def less_scan_0)
qed

text \<open>
  Three-cell storages that differ in the last cell only, a two-cell storage against a
  three-cell one, and a storage against itself.
\<close>

theorem operator_less_orders_by_storage_witness:
  "operator_less (emptyPNB\<lparr> bits := [True, False, False] \<rparr>)
                 (emptyPNB\<lparr> bits := [True, False, True] \<rparr>) \<and>
   operator_less (emptyPNB\<lparr> bits := [True, True] \<rparr>)
                 (emptyPNB\<lparr> bits := [False, False, False] \<rparr>) \<and>
   \<not> operator_less (emptyPNB\<lparr> bits := [True, False, True] \<rparr>)
                   (emptyPNB\<lparr> bits := [True, False, True] \<rparr>)"
proof -
  have "\<exists>k<Suc (Suc (Suc 0)). \<not> [True, False, False] ! k \<and> [True, False, True] ! k
          \<and> (\<forall>j<k. [True, False, False] ! j = [True, False, True] ! j)"
    by (intro exI [of _ "Suc (Suc 0)"]) (simp add: nth_Cons' less_Suc_eq)
  then show ?thesis
    using operator_less_orders_by_storage
      [of "emptyPNB\<lparr> bits := [True, False, False] \<rparr>"
          "emptyPNB\<lparr> bits := [True, False, True] \<rparr>" emptyPNB]
      operator_less_orders_by_storage
      [of "emptyPNB\<lparr> bits := [True, True] \<rparr>"
          "emptyPNB\<lparr> bits := [False, False, False] \<rparr>" emptyPNB]
      operator_less_orders_by_storage
      [of "emptyPNB\<lparr> bits := [True, False, True] \<rparr>" emptyPNB emptyPNB]
    by simp
qed

text \<open>
  Claim C4 as stated fails: after one bit (1) is appended to a fresh buffer and two
  bits (00) to another, the first buffer has fewer used bits, yet it is not less than the
  second one; the second one is less than the first. Both storages have 900 cells and
  the scan decides at cell 0.
\<close>

theorem operator_less_ignores_bits_used:
  "addUint64_t emptyPNB 1 1 = Inr (emptyPNB\<lparr> bits := (replicate 900 False)[0 := True], bits_used := 1 \<rparr>) \<and>
   addUint64_t emptyPNB 0 2 = Inr (emptyPNB\<lparr> bits := replicate 900 False, bits_used := 2 \<rparr>) \<and>
   \<not> operator_less (emptyPNB\<lparr> bits := (replicate 900 False)[0 := True], bits_used := 1 \<rparr>)
                   (emptyPNB\<lparr> bits := replicate 900 False, bits_used := 2 \<rparr>) \<and>
   operator_less (emptyPNB\<lparr> bits := replicate 900 False, bits_used := 2 \<rparr>)
                 (emptyPNB\<lparr> bits := (replicate 900 False)[0 := True], bits_used := 1 \<rparr>)"
proof -
  have "addUint64_loop 0 (2 ^ (2 - 1)) 0 2 (replicate 900 False) = replicate 900 False"
    by (rule addUint64_loop_clear) simp_all
  moreover have "addUint64_loop 1 (2 ^ (1 - 1)) 0 1 (replicate 900 False) = (replicate 900 False)[0 := True]"
    by (simp add: numeral_eq_Suc)
  ultimately show ?thesis
    by (simp add: addUint64_t_def operator_less_def less_scan.simps [of _ _ 0])
qed

subsection \<open>Strings\<close>

lemma msb_bits_length [simp]: "length (msb_bits n v) = n"
  by (simp add: msb_bits_def)

lemma overwrite_length [simp]: "i + length xs \<le> length bs \<Longrightarrow> length (overwrite bs i xs) = length bs"
  by (simp add: overwrite_def)

lemma addUint64_loop_overwrite:
  assumes "n \<le> 64" "ndx + n \<le> length bs"
  shows "addUint64_loop v (2 ^ (n - 1)) ndx n bs = overwrite bs ndx (msb_bits n v)"
proof (rule nth_equalityI)
  show "length (addUint64_loop v (2 ^ (n - 1)) ndx n bs) = length (overwrite bs ndx (msb_bits n v))"
    using assms by simp
next
  fix i assume "i < length (addUint64_loop v (2 ^ (n - 1)) ndx n bs)"
  then have i: "i < length bs" by simp
  consider "i < ndx" | "ndx \<le> i \<and> i < ndx + n" | "ndx + n \<le> i" by arith
  then show "addUint64_loop v (2 ^ (n - 1)) ndx n bs ! i = overwrite bs ndx (msb_bits n v) ! i"
  proof cases
    case 1
    then show ?thesis
      unfolding addUint64_loop_nth [OF assms i] using assms i
      by (simp add: overwrite_def nth_append)
  next
    case 2
    then obtain j where j: "i = ndx + j" "j < n"
      by (metis add_diff_inverse_nat less_diff_conv2 not_less add.commute)
    have "ndx + n - 1 - (ndx + j) = n - 1 - j" by arith
    moreover have "overwrite bs ndx (msb_bits n v) ! (ndx + j) = bit v (n - 1 - j)"
      using assms j(2) by (simp add: overwrite_def nth_append msb_bits_def)
    moreover have "addUint64_loop v (2 ^ (n - 1)) ndx n bs ! i = bit v (ndx + n - 1 - i)"
      using addUint64_loop_nth [OF assms i, of v] 2 by simp
    ultimately show ?thesis
      using j(1) by simp
  next
    case 3
    then have a: "\<not> i < ndx" "\<not> i - ndx < n" "ndx + n + (i - ndx - n) = i"
      by arith+
    have "overwrite bs ndx (msb_bits n v) ! i = bs ! i"
      using assms a by (simp add: overwrite_def nth_append)
    moreover have "addUint64_loop v (2 ^ (n - 1)) ndx n bs ! i = bs ! i"
      using addUint64_loop_nth [OF assms i, of v] 3 by simp
    ultimately show ?thesis by simp
  qed
qed

lemma addUint64_t_overwrite:
  assumes "1 \<le> numBits" "numBits \<le> 64" "0 \<le> bits_used p"
    and "bits_used p + numBits \<le> int (length (bits p))"
  shows "addUint64_t p v numBits =
           Inr (p\<lparr> bits := overwrite (bits p) (nat (bits_used p)) (msb_bits (nat numBits) v),
                     bits_used := bits_used p + numBits \<rparr>)"
proof -
  have "addUint64_loop v (2 ^ (nat numBits - 1)) (nat (bits_used p)) (nat numBits) (bits p)
          = overwrite (bits p) (nat (bits_used p)) (msb_bits (nat numBits) v)"
    using assms by (intro addUint64_loop_overwrite) simp_all
  then show ?thesis
    using addUint64_t_ok [OF assms, of v] by simp
qed

lemma overwrite_overwrite:
  assumes "i + length xs + length ys \<le> length bs"
  shows "overwrite (overwrite bs i xs) (i + length xs) ys = overwrite bs i (xs @ ys)"
  using assms by (simp add: overwrite_def ac_simps)

lemma overwrite_Nil [simp]: "i \<le> length bs \<Longrightarrow> overwrite bs i [] = bs"
  by (simp add: overwrite_def)

lemma char_bits_length [simp]: "length (char_bits c) = 8"
  by (simp add: char_bits_def)

lemma concat_char_bits_length [simp]: "length (concat (map char_bits cs)) = 8 * length cs"
  by (induction cs) simp_all

lemma addString_copy_valid:
  assumes "list_all validChar cs" "0 \<le> bits_used p"
    and "bits_used p + 8 * int (length cs) \<le> int (length (bits p))"
  shows "addString_copy p cs =
           Inr (p\<lparr> bits := overwrite (bits p) (nat (bits_used p)) (concat (map char_bits cs)),
                     bits_used := bits_used p + 8 * int (length cs) \<rparr>)"
  using assms
proof (induction cs arbitrary: p)
  case Nil
  then show ?case by simp
next
  case (Cons c cs)
  let ?p' = "p\<lparr> bits := overwrite (bits p) (nat (bits_used p)) (char_bits c),
                 bits_used := bits_used p + 8 \<rparr>"
  have step: "addUint64_t p (of_char c) 8 = Inr ?p'"
    using Cons.prems addUint64_t_overwrite [of 8 p "of_char c"]
    by (simp add: char_bits_def)
  have len: "length (bits ?p') = length (bits p)"
    using Cons.prems by simp
  have "addString_copy ?p' cs =
           Inr (?p'\<lparr> bits := overwrite (bits ?p') (nat (bits_used ?p')) (concat (map char_bits cs)),
                     bits_used := bits_used ?p' + 8 * int (length cs) \<rparr>)"
    using Cons.prems len by (intro Cons.IH) simp_all
  moreover have "overwrite (bits ?p') (nat (bits_used ?p')) (concat (map char_bits cs))
        = overwrite (bits p) (nat (bits_used p)) (concat (map char_bits (c # cs)))"
    using Cons.prems
      overwrite_overwrite [of "nat (bits_used p)" "char_bits c" "concat (map char_bits cs)" "bits p"]
    by (simp add: nat_add_distrib)
  ultimately show ?case
    using Cons.prems step by simp
qed

lemma validChar_space: "validChar (CHR '' '')"
  by (simp add: validChar_def)

lemma addString_pad_eq_copy:
  "addString_pad p n = addString_copy p (replicate n (CHR '' ''))"
  by (induction n arbitrary: p) (simp_all add: validChar_space split: sum.splits)

lemma addString_copy_append:
  "addString_copy p (xs @ ys) =
     (case addString_copy p xs of Inl e \<Rightarrow> Inl e | Inr p' \<Rightarrow> addString_copy p' ys)"
  by (induction xs arbitrary: p) (simp_all split: sum.splits)

lemma addString_as_copy:
  assumes "0 \<le> numChars"
  shows "addString p s numChars =
           addString_copy p (take (nat numChars) s @ replicate (nat numChars - length s) (CHR '' ''))"
proof -
  consider "numChars < int (length s)" | "numChars > int (length s)" | "numChars = int (length s)"
    by arith
  then show ?thesis
  proof cases
    case 1
    then show ?thesis
      using assms by (simp add: addString_def Let_def split: sum.splits)
  next
    case 2
    then have "nat (numChars - int (length s)) = nat numChars - length s" by arith
    then show ?thesis
      using assms 2
      by (simp add: addString_def Let_def addString_copy_append addString_pad_eq_copy
            split: sum.splits)
  next
    case 3
    then show ?thesis
      using assms by (simp add: addString_def Let_def split: sum.splits)
  qed
qed

lemma takeWhile_split:
  assumes "\<not> list_all P xs"
  shows "\<exists>c rest. xs = takeWhile P xs @ c # rest \<and> \<not> P c"
proof -
  have "dropWhile P xs \<noteq> []"
    using assms by (simp add: list_all_iff)
  then obtain c rest where cr: "dropWhile P xs = c # rest"
    by (cases "dropWhile P xs") auto
  then have "\<not> P c"
    using hd_dropWhile [of P xs] by simp
  moreover have "xs = takeWhile P xs @ c # rest"
    using cr takeWhile_dropWhile_id [of P xs] by simp
  ultimately show ?thesis by blast
qed

lemma addString_copy_invalid:
  assumes "\<not> list_all validChar cs" "0 \<le> bits_used p"
    and "bits_used p + 8 * int (length cs) \<le> int (length (bits p))"
  shows "addString_copy p cs =
           Inl (InvalidParameter invalidCharMessage,
                p\<lparr> bits := overwrite (bits p) (nat (bits_used p))
                                 (concat (map char_bits (takeWhile validChar cs))),
                   bits_used := bits_used p + 8 * int (length (takeWhile validChar cs)) \<rparr>)"
proof -
  obtain c rest where split: "cs = takeWhile validChar cs @ c # rest" and c: "\<not> validChar c"
    using takeWhile_split [OF assms(1)] by blast
  let ?pre = "takeWhile validChar cs"
  have "length ?pre \<le> length cs"
    by (rule length_takeWhile_le)
  then have room: "bits_used p + 8 * int (length ?pre) \<le> int (length (bits p))"
    using assms(3) by simp
  have "list_all validChar ?pre"
    by (simp add: list_all_iff) (meson set_takeWhileD)
  then have pre: "addString_copy p ?pre =
           Inr (p\<lparr> bits := overwrite (bits p) (nat (bits_used p)) (concat (map char_bits ?pre)),
                     bits_used := bits_used p + 8 * int (length ?pre) \<rparr>)"
    using assms(2) room by (rule addString_copy_valid)
  have "addString_copy p cs = addString_copy p (?pre @ c # rest)"
    using split by simp
  then show ?thesis
    unfolding addString_copy_append pre using c by simp
qed

lemma validChar_set:
  "validChar c \<longleftrightarrow>
     c \<in> set ''ABCDEFGHIJKLMNOPQRSTUVWXYZ'' \<or> c \<in> set ''0123456789:'' \<or> c = CHR '' '' \<or>
     c = CHR 0x22 \<or> c = CHR 0x27 \<or> c = CHR ''+'' \<or> c \<in> set ''-./'' \<or> c = CHR 0xF8"
proof -
  have eq: "(c = d) = ((of_char c :: nat) = of_char d)" for d
    by simp
  show ?thesis
    unfolding validChar_def Let_def by (simp add: eq) arith
qed

lemma padded_length:
  "length (take n s @ replicate (n - length s) c) = n"
  by (cases "n \<le> length s") simp_all

text \<open>
  Claim C8. For a character count that is not negative and a buffer with room for
  \<open>8 * numChars\<close> more bits, \<open>addString\<close> looks at the first
  \<open>min (length s) numChars\<close> characters of the text only (\<open>take (nat numChars) s\<close>).
  If they are all valid, it appends them, followed by spaces up to \<open>numChars\<close>
  characters, 8 bits per character, most significant bit first. If one of them is not
  valid, it throws at the first such character, the characters before it having been
  appended. The valid characters are the upper-case letters, \<open>0\<close> to \<open>:\<close>, the
  space, the double and the single quote, \<open>+\<close>, \<open>-\<close> to \<open>/\<close>, and the byte
  \<open>0xF8\<close>.
\<close>

theorem addString_copies_pads_truncates:
  assumes "0 \<le> numChars" and "0 \<le> bits_used p"
    and "bits_used p + 8 * numChars \<le> int (length (bits p))"
  shows
    "(list_all validChar (take (nat numChars) s) \<longrightarrow>
        addString p s numChars =
          Inr (p\<lparr> bits := overwrite (bits p) (nat (bits_used p))
                      (concat (map char_bits
                         (take (nat numChars) s @ replicate (nat numChars - length s) (CHR '' '')))),
                   bits_used := bits_used p + 8 * numChars \<rparr>)) \<and>
     (\<not> list_all validChar (take (nat numChars) s) \<longrightarrow>
        addString p s numChars =
          Inl (InvalidParameter invalidCharMessage,
               p\<lparr> bits := overwrite (bits p) (nat (bits_used p))
                      (concat (map char_bits (takeWhile validChar (take (nat numChars) s)))),
                  bits_used := bits_used p
                      + 8 * int (length (takeWhile validChar (take (nat numChars) s))) \<rparr>)) \<and>
     (validChar c \<longleftrightarrow>
        c \<in> set ''ABCDEFGHIJKLMNOPQRSTUVWXYZ'' \<or> c \<in> set ''0123456789:'' \<or> c = CHR '' '' \<or>
        c = CHR 0x22 \<or> c = CHR 0x27 \<or> c = CHR ''+'' \<or> c \<in> set ''-./'' \<or> c = CHR 0xF8)"
proof (intro conjI impI)
  let ?cs = "take (nat numChars) s @ replicate (nat numChars - length s) (CHR '' '')"
  have len: "int (length ?cs) = numChars"
    using assms(1) by (simp only: padded_length int_nat_eq if_True)
  have room: "bits_used p + 8 * int (length ?cs) \<le> int (length (bits p))"
    using assms(3) by (simp only: len)
  have eq: "addString p s numChars = addString_copy p ?cs"
    using assms(1) by (rule addString_as_copy)
  {
    assume "list_all validChar (take (nat numChars) s)"
    then have "list_all validChar ?cs"
      by (auto simp add: validChar_space list_all_iff)
    then have "addString_copy p ?cs =
           Inr (p\<lparr> bits := overwrite (bits p) (nat (bits_used p)) (concat (map char_bits ?cs)),
                     bits_used := bits_used p + 8 * int (length ?cs) \<rparr>)"
      using assms(2) room by (rule addString_copy_valid)
    then show "addString p s numChars =
          Inr (p\<lparr> bits := overwrite (bits p) (nat (bits_used p)) (concat (map char_bits ?cs)),
                   bits_used := bits_used p + 8 * numChars \<rparr>)"
      unfolding eq by (simp only: len)
  }
  {
    assume inv: "\<not> list_all validChar (take (nat numChars) s)"
    then have "\<not> list_all validChar ?cs"
      by simp
    then have "addString_copy p ?cs =
           Inl (InvalidParameter invalidCharMessage,
                p\<lparr> bits := overwrite (bits p) (nat (bits_used p))
                                 (concat (map char_bits (takeWhile validChar ?cs))),
                   bits_used := bits_used p + 8 * int (length (takeWhile validChar ?cs)) \<rparr>)"
      using assms(2) room by (rule addString_copy_invalid)
    moreover obtain x where "x \<in> set (take (nat numChars) s)" "\<not> validChar x"
      using inv by (auto simp add: list_all_iff)
    then have "takeWhile validChar ?cs = takeWhile validChar (take (nat numChars) s)"
      by (rule takeWhile_append1)
    ultimately show "addString p s numChars =
          Inl (InvalidParameter invalidCharMessage,
               p\<lparr> bits := overwrite (bits p) (nat (bits_used p))
                      (concat (map char_bits (takeWhile validChar (take (nat numChars) s)))),
                  bits_used := bits_used p
                      + 8 * int (length (takeWhile validChar (take (nat numChars) s))) \<rparr>)"
      unfolding eq by simp
  }
  show "validChar c \<longleftrightarrow>
        c \<in> set ''ABCDEFGHIJKLMNOPQRSTUVWXYZ'' \<or> c \<in> set ''0123456789:'' \<or> c = CHR '' '' \<or>
        c = CHR 0x22 \<or> c = CHR 0x27 \<or> c = CHR ''+'' \<or> c \<in> set ''-./'' \<or> c = CHR 0xF8"
    by (rule validChar_set)
qed

text \<open>
  On a fresh buffer: \<open>HI\<close> in 4 characters is stored as \<open>HI\<close> and two spaces,
  \<open>HELLO\<close> in 3 characters as \<open>HEL\<close>, and \<open>HeLLO\<close> in 3 characters throws at
  \<open>e\<close> with \<open>H\<close> stored.
\<close>

theorem addString_copies_pads_truncates_witness:
  "addString emptyPNB ''HI'' 4 =
     Inr (emptyPNB\<lparr> bits := overwrite (replicate 900 False) 0 (concat (map char_bits ''HI  '')),
                     bits_used := 32 \<rparr>) \<and>
   addString emptyPNB ''HELLO'' 3 =
     Inr (emptyPNB\<lparr> bits := overwrite (replicate 900 False) 0 (concat (map char_bits ''HEL'')),
                     bits_used := 24 \<rparr>) \<and>
   addString emptyPNB ''HeLLO'' 3 =
     Inl (InvalidParameter invalidCharMessage,
          emptyPNB\<lparr> bits := overwrite (replicate 900 False) 0 (concat (map char_bits ''H'')),
                    bits_used := 8 \<rparr>)"
  using addString_copies_pads_truncates [of 4 emptyPNB "''HI''" "CHR ''A''"]
    addString_copies_pads_truncates [of 3 emptyPNB "''HELLO''" "CHR ''A''"]
    addString_copies_pads_truncates [of 3 emptyPNB "''HeLLO''" "CHR ''A''"]
  by (simp add: validChar_def numeral_eq_Suc)

subsection \<open>Split signed unpack\<close>

lemma bits_value_snoc: "bits_value (xs @ [b]) = 2 * bits_value xs + of_bool b"
  by (simp add: bits_value_def)

lemma bits_value_Nil [simp]: "bits_value [] = 0"
  by (simp add: bits_value_def)

lemma bits_value_append:
  "bits_value (xs @ ys) = bits_value xs * 2 ^ length ys + bits_value ys"
proof (induction ys rule: rev_induct)
  case Nil
  then show ?case by simp
next
  case (snoc y ys)
  have "bits_value (xs @ ys @ [y]) = 2 * bits_value (xs @ ys) + of_bool y"
    using bits_value_snoc [of "xs @ ys" y] by simp
  then show ?case
    using snoc by (simp add: bits_value_snoc algebra_simps)
qed

lemma bits_value_bound: "bits_value xs < 2 ^ length xs"
proof (induction xs rule: rev_induct)
  case Nil
  then show ?case by simp
next
  case (snoc x xs)
  then show ?case by (cases x) (simp_all add: bits_value_snoc)
qed

lemma bits_value_Cons: "bits_value (b # bs) = of_bool b * 2 ^ length bs + bits_value bs"
  using bits_value_append [of "[b]" bs] bits_value_snoc [of "[]" b] by simp

lemma signed_bits_value_bounds:
  assumes "bs \<noteq> []"
  shows "- (2 ^ (length bs - 1)) \<le> signed_bits_value bs \<and> signed_bits_value bs < 2 ^ (length bs - 1)"
proof -
  obtain b rest where bs: "bs = b # rest" using assms by (cases bs) auto
  define r where "r = int (bits_value rest)"
  define P where "P = (2::int) ^ length rest"
  have "int (bits_value rest) < int (2 ^ length rest)"
    using bits_value_bound [of rest] by (simp only: of_nat_less_iff)
  then have r: "0 \<le> r" "r < P"
    by (simp_all add: r_def P_def)
  have "signed_bits_value bs = (if b then r - P else r)"
    unfolding bs by (simp add: signed_bits_value_def bits_value_Cons r_def P_def)
  moreover have "(2::int) ^ (length bs - 1) = P"
    unfolding bs by (simp add: P_def)
  ultimately show ?thesis
    using r by (cases b) simp_all
qed

lemma signed_bits_value_append:
  assumes "xs \<noteq> []"
  shows "signed_bits_value (xs @ ys) = signed_bits_value xs * 2 ^ length ys + int (bits_value ys)"
  using assms
  by (simp add: signed_bits_value_def bits_value_append power_add algebra_simps)

lemma asUint64_step_unat:
  assumes "unat t < 2 ^ 63"
  shows "unat (asUint64_step bs t i) = 2 * unat t + of_bool (bs ! i)"
proof -
  have "2 * unat t + of_bool (bs ! i) < 2 ^ 64"
    using assms by (cases "bs ! i") simp_all
  then show ?thesis
    by (cases "bs ! i") (simp_all add: asUint64_step_def Let_def unat_word_ariths)
qed

lemma asUint64_fold_unat:
  assumes "n \<le> 64" "s + n \<le> length bs"
  shows "unat (foldl (asUint64_step bs) 0 [s ..< s + n]) = bits_value (field_bits bs s n)"
  using assms
proof (induction n)
  case 0
  then show ?case by (simp add: field_bits_def)
next
  case (Suc n)
  let ?t = "foldl (asUint64_step bs) 0 [s ..< s + n]"
  have IH: "unat ?t = bits_value (field_bits bs s n)"
    using Suc by simp
  have "length (field_bits bs s n) = n"
    using Suc.prems by (simp add: field_bits_def)
  then have "bits_value (field_bits bs s n) < 2 ^ n"
    using bits_value_bound [of "field_bits bs s n"] by simp
  also have "(2::nat) ^ n \<le> 2 ^ 63"
    using Suc.prems by (intro power_increasing) simp_all
  finally have small: "unat ?t < 2 ^ 63"
    using IH by simp
  have "field_bits bs s (Suc n) = field_bits bs s n @ [bs ! (s + n)]"
    using Suc.prems by (simp add: field_bits_def take_Suc_conv_app_nth)
  then have "bits_value (field_bits bs s (Suc n)) = 2 * bits_value (field_bits bs s n) + of_bool (bs ! (s + n))"
    by (simp add: bits_value_snoc)
  moreover have "foldl (asUint64_step bs) 0 [s ..< s + Suc n] = asUint64_step bs ?t (s + n)"
    by simp
  ultimately show ?case
    using asUint64_step_unat [OF small, of bs "s + n"] IH by simp
qed

lemma asUint64_t_value:
  assumes "n \<le> 64" "s + n \<le> length (bits p)" "length (bits p) < 2 ^ 31"
  shows "\<exists>w. asUint64_t p (int s) (int n) = Inr w \<and> unat w = bits_value (field_bits (bits p) s n)"
proof -
  have "asUint64_t p (int s) (int n) =
           Inr (foldl (asUint64_step (bits p)) 0 [nat (int s) ..< nat (int s) + nat (int n)])"
    using assms by (intro asUint64_t_in_range) simp_all
  then show ?thesis
    using asUint64_fold_unat [OF assms(1,2)] by simp
qed

lemma field_bits_length [simp]: "s + n \<le> length bs \<Longrightarrow> length (field_bits bs s n) = n"
  by (simp add: field_bits_def)

lemma sint_of_int_in_range:
  "- (2 ^ 63) \<le> x \<Longrightarrow> x < 2 ^ 63 \<Longrightarrow> sint (word_of_int x :: 64 word) = x"
  by (simp add: sint_sbintrunc' signed_take_bit_int_eq_self)

lemma hd_iff_high:
  assumes "bs \<noteq> []"
  shows "hd bs \<longleftrightarrow> 2 ^ (length bs - 1) \<le> bits_value bs"
proof -
  obtain b rest where bs: "bs = b # rest" using assms by (cases bs) auto
  show ?thesis
    unfolding bs using bits_value_bound [of rest] by (cases b) (simp_all add: bits_value_Cons)
qed

lemma uint_less_of_unat: "unat (u :: 64 word) < 2 ^ n \<Longrightarrow> uint u < 2 ^ n"
proof -
  assume "unat u < 2 ^ n"
  then have "int (unat u) < int (2 ^ n)" by (simp only: of_nat_less_iff)
  then show ?thesis by simp
qed

lemma uint_ge_of_unat: "2 ^ n \<le> unat (u :: 64 word) \<Longrightarrow> 2 ^ n \<le> uint u"
proof -
  assume "2 ^ n \<le> unat u"
  then have "int (2 ^ n) \<le> int (unat u)" by (simp only: of_nat_le_iff)
  then show ?thesis by simp
qed

text \<open>Shifting up and back down arithmetically reads the low \<open>n\<close> bits as a signed value.\<close>

lemma sint_of_int_wrap:
  assumes "- (2 ^ 63) \<le> y" "y < 2 ^ 63" "M = 2 ^ 64"
  shows "sint (word_of_int (y + M) :: 64 word) = y"
proof -
  have z: "(word_of_int M :: 64 word) = 0"
    unfolding assms(3) by simp
  have "(word_of_int (y + M) :: 64 word) = word_of_int y"
    by (simp only: wi_hom_syms(1) z add_0_right)
  then show ?thesis
    using assms(1,2) by (simp add: sint_of_int_in_range)
qed

lemma sign_extend_sint:
  assumes "1 \<le> n" "n \<le> 64" "unat u < 2 ^ n"
  shows "sint (signed_drop_bit (64 - n) (push_bit (64 - n) (u :: 64 word)))
           = (if 2 ^ (n - 1) \<le> unat u then uint u - 2 ^ n else uint u)"
proof -
  define k where "k = 64 - n"
  define K where "K = (2::int) ^ k"
  define N where "N = (2::int) ^ n"
  define H where "H = (2::int) ^ (n - 1)"
  define x where "x = uint u"
  have "n + k = 64" "n - 1 + k = 63" "Suc (n - 1) = n"
    using assms by (simp_all add: k_def)
  then have pow: "(2::int) ^ 64 = N * K" "(2::int) ^ 63 = H * K" "N = 2 * H"
    unfolding N_def K_def H_def
    by (metis power_add, metis power_add, metis power_Suc)
  have K: "0 < K" by (simp add: K_def)
  have x: "0 \<le> x" "x < N"
    using assms(3) by (simp_all add: uint_less_of_unat x_def N_def)
  have s: "push_bit k u = word_of_int (x * K)"
    by (simp add: push_bit_eq_mult x_def K_def)
  have d: "sint (signed_drop_bit k (push_bit k u)) = sint (push_bit k u) div K"
    by (simp add: sint_signed_drop_bit_eq drop_bit_eq_div K_def)
  show ?thesis
  proof (cases "2 ^ (n - 1) \<le> unat u")
    case True
    then have hi: "H \<le> x"
      unfolding H_def x_def by (rule uint_ge_of_unat)
    define y where "y = (x - N) * K"
    have "- H \<le> x - N" using hi pow(3) by simp
    then have "- H * K \<le> (x - N) * K"
      using K by (intro mult_right_mono) simp_all
    then have lo: "- (2 ^ 63) \<le> y"
      unfolding pow(2) y_def by simp
    have "y < 0"
      using x K by (simp add: y_def mult_less_0_iff)
    then have up: "y < 2 ^ 63"
      by (rule less_trans) simp
    have "x * K = y + N * K"
      by (simp add: y_def algebra_simps)
    then have "sint (push_bit k u) = y"
      unfolding s using sint_of_int_wrap [OF lo up pow(1) [symmetric]] by simp
    then have "sint (signed_drop_bit k (push_bit k u)) = y div K"
      using d by simp
    also have "y div K = x - N"
      using K by (simp add: y_def)
    finally show ?thesis
      using True by (simp add: k_def x_def N_def)
  next
    case False
    then have "unat u < 2 ^ (n - 1)" by simp
    then have lo: "x < H"
      unfolding H_def x_def by (rule uint_less_of_unat)
    define y where "y = x * K"
    have "x * K < H * K"
      using lo K by (intro mult_strict_right_mono) simp_all
    then have up: "y < 2 ^ 63"
      unfolding pow(2) y_def by simp
    have "0 \<le> y" using x K by (simp add: y_def)
    then have low: "- (2 ^ 63) \<le> y"
      by (rule order_trans [rotated]) simp
    have "sint (push_bit k u) = y"
      unfolding s using sint_of_int_in_range [OF low up] by (simp add: y_def)
    then have "sint (signed_drop_bit k (push_bit k u)) = y div K"
      using d by simp
    also have "y div K = x"
      using K by (simp add: y_def)
    finally show ?thesis
      using False by (simp add: k_def x_def)
  qed
qed

lemma low_bits_only:
  assumes "unat (t :: 64 word) < 2 ^ n" "bit t j"
  shows "j < n"
proof -
  have "take_bit n t = t" using assms(1) by (rule take_bit_word64_self)
  then have "bit (take_bit n t) j" using assms(2) by simp
  then show ?thesis by (simp add: bit_take_bit_iff)
qed

lemma shift_or_eq_add:
  assumes "unat (t :: 64 word) < 2 ^ n"
  shows "push_bit n s OR t = push_bit n s + t"
proof (rule disjunctive_add [symmetric])
  fix j
  show "\<not> bit (push_bit n s) j \<or> \<not> bit t j"
    using low_bits_only [OF assms, of j] by (auto simp add: bit_push_bit_iff)
qed

lemma shift_or_sint:
  assumes "- (2 ^ (w - 1)) \<le> sint s" "sint s < 2 ^ (w - 1)" "1 \<le> w" "w + n \<le> 64"
    and "unat (t :: 64 word) < 2 ^ n"
  shows "sint (push_bit n (s :: 64 word) OR t) = sint s * 2 ^ n + uint t"
proof -
  define N where "N = (2::int) ^ n"
  define H where "H = (2::int) ^ (w - 1)"
  define a where "a = sint s"
  define b where "b = uint t"
  have N: "0 < N" by (simp add: N_def)
  have b: "0 \<le> b" "b < N"
    using assms(5) by (simp_all add: b_def N_def uint_less_of_unat)
  have a: "- H \<le> a" "a < H"
    using assms(1,2) by (simp_all add: a_def H_def)
  have "w - 1 + n \<le> 63" using assms(3,4) by simp
  then have "(2::int) ^ (w - 1 + n) \<le> 2 ^ 63"
    by (intro power_increasing) simp_all
  then have HN: "H * N \<le> 2 ^ 63"
    by (simp add: H_def N_def power_add)
  have "push_bit n s + t = word_of_int a * word_of_int N + word_of_int b"
    by (simp add: push_bit_eq_mult a_def b_def N_def)
  also have "\<dots> = word_of_int (a * N + b)"
    by (simp only: wi_hom_syms)
  finally have eq: "push_bit n s OR t = word_of_int (a * N + b)"
    using shift_or_eq_add [OF assms(5), of s] by simp
  have "- H * N \<le> a * N"
    using a(1) N by (intro mult_right_mono) simp_all
  then have lo: "- (2 ^ 63) \<le> a * N + b"
    using HN b(1) by linarith
  have "a + 1 \<le> H" using a(2) by simp
  then have "(a + 1) * N \<le> H * N"
    using N by (intro mult_right_mono) simp_all
  then have "a * N + N \<le> H * N"
    by (simp add: algebra_simps)
  then have up: "a * N + b < 2 ^ 63"
    using HN b(2) by linarith
  show ?thesis
    unfolding eq using sint_of_int_in_range [OF lo up] by (simp add: a_def b_def N_def)
qed

lemma long_times_in_range:
  assumes "- (2 ^ 63) \<le> sint s * scale" "sint s * scale < 2 ^ 63"
  shows "\<exists>w. long_times s scale = Inr w \<and> sint w = sint s * scale"
  using assms sint_of_int_in_range [OF assms]
  by (simp add: long_times_def Let_def not_less)

lemma SignExtend_value:
  assumes "1 \<le> n" "n \<le> 64" "s + n \<le> length (bits p)" "length (bits p) < 2 ^ 31"
  shows "\<exists>w. SignExtend p (int s) (int n) = Inr w \<and>
             sint w = signed_bits_value (field_bits (bits p) s n)"
proof -
  let ?F = "field_bits (bits p) s n"
  obtain u where u: "asUint64_t p (int s) (int n) = Inr u" "unat u = bits_value ?F"
    using asUint64_t_value [OF assms(2,3,4)] by blast
  have len: "length ?F = n" using assms(3) by simp
  then have ne: "?F \<noteq> []" using assms(1) by auto
  have small: "unat u < 2 ^ n"
    using bits_value_bound [of ?F] u(2) len by simp
  have "sint (signed_drop_bit (64 - n) (push_bit (64 - n) u))
           = (if 2 ^ (n - 1) \<le> unat u then uint u - 2 ^ n else uint u)"
    using assms(1,2) small by (rule sign_extend_sint)
  moreover have "uint u = int (bits_value ?F)"
    using u(2) by (simp flip: u(2))
  moreover have "hd ?F \<longleftrightarrow> 2 ^ (n - 1) \<le> unat u"
    using hd_iff_high [OF ne] len u(2) by simp
  ultimately have "sint (signed_drop_bit (64 - n) (push_bit (64 - n) u)) = signed_bits_value ?F"
    using ne len by (simp add: signed_bits_value_def)
  moreover have "nat (64 - int n) = 64 - n" by simp
  ultimately show ?thesis
    using u(1) assms(1,2) by (simp add: SignExtend_def)
qed

lemma int_of_unsigned_small: "u < 2 ^ 31 \<Longrightarrow> int_of_unsigned u = int u"
  by (simp add: int_of_unsigned_def)

lemma asLong_loop_value:
  assumes "i + k \<le> length startBits" "i + k \<le> length numBits" "length (bits p) < 2 ^ 31"
    and "\<forall>j. i \<le> j \<and> j < i + k \<longrightarrow> startBits ! j + numBits ! j \<le> length (bits p)"
    and "C \<noteq> []" "sint s = signed_bits_value C"
    and "length C + sum_list (take k (drop i numBits)) \<le> 64"
  shows "\<exists>s'. asLong_loop p startBits numBits i k s = Inr s' \<and>
           sint s' = signed_bits_value
             (C @ concat (map (\<lambda>j. field_bits (bits p) (startBits ! j) (numBits ! j)) [i ..< i + k]))"
  using assms
proof (induction k arbitrary: i s C)
  case 0
  then show ?case by simp
next
  case (Suc k)
  let ?n = "numBits ! i"
  let ?D = "field_bits (bits p) (startBits ! i) ?n"
  have i: "i < length startBits" "i < length numBits"
    using Suc.prems(1,2) by simp_all
  have dr: "take (Suc k) (drop i numBits) = ?n # take k (drop (Suc i) numBits)"
    using i(2) by (simp add: Cons_nth_drop_Suc [symmetric])
  have sum: "length C + ?n + sum_list (take k (drop (Suc i) numBits)) \<le> 64"
    using Suc.prems(7) unfolding dr by simp
  have Cpos: "1 \<le> length C" using Suc.prems(5) by (cases C) simp_all
  then have n: "?n < 64" "length C + ?n \<le> 64" using sum by simp_all
  have room: "startBits ! i + ?n \<le> length (bits p)"
    using Suc.prems(4) by simp
  obtain temp where temp: "asUint64_t p (int (startBits ! i)) (int ?n) = Inr temp"
      "unat temp = bits_value ?D"
    using asUint64_t_value [OF _ room Suc.prems(3)] n(1) by auto
  have iu: "int_of_unsigned (startBits ! i) = int (startBits ! i)" "int_of_unsigned ?n = int ?n"
    using room Suc.prems(3) by (simp_all add: int_of_unsigned_small)
  have lenD: "length ?D = ?n" using room by simp
  have small: "unat temp < 2 ^ ?n"
    using bits_value_bound [of ?D] temp(2) lenD by simp
  let ?s1 = "push_bit ?n s OR temp"
  have bounds: "- (2 ^ (length C - 1)) \<le> sint s" "sint s < 2 ^ (length C - 1)"
    using signed_bits_value_bounds [OF Suc.prems(5)] Suc.prems(6) by simp_all
  have "sint ?s1 = sint s * 2 ^ ?n + uint temp"
    using bounds Cpos n(2) small by (rule shift_or_sint)
  moreover have "uint temp = int (bits_value ?D)"
    by (simp flip: temp(2))
  ultimately have s1: "sint ?s1 = signed_bits_value (C @ ?D)"
    using Suc.prems(5,6) lenD by (simp add: signed_bits_value_append)
  have step: "asLong_loop p startBits numBits i (Suc k) s
                = asLong_loop p startBits numBits (Suc i) k ?s1"
    using i temp(1) n(1) iu by simp
  have "\<exists>s'. asLong_loop p startBits numBits (Suc i) k ?s1 = Inr s' \<and>
           sint s' = signed_bits_value
             ((C @ ?D) @ concat (map (\<lambda>j. field_bits (bits p) (startBits ! j) (numBits ! j))
                                   [Suc i ..< Suc i + k]))"
  proof (rule Suc.IH)
    show "Suc i + k \<le> length startBits" "Suc i + k \<le> length numBits"
      using Suc.prems(1,2) by simp_all
    show "length (bits p) < 2 ^ 31" by (rule Suc.prems(3))
    show "\<forall>j. Suc i \<le> j \<and> j < Suc i + k \<longrightarrow> startBits ! j + numBits ! j \<le> length (bits p)"
      using Suc.prems(4) by simp
    show "C @ ?D \<noteq> []" using Suc.prems(5) by simp
    show "sint ?s1 = signed_bits_value (C @ ?D)" by (rule s1)
    show "length (C @ ?D) + sum_list (take k (drop (Suc i) numBits)) \<le> 64"
      using sum lenD by simp
  qed
  moreover have "[i ..< i + Suc k] = i # [Suc i ..< Suc i + k]"
    by (simp add: upt_conv_Cons)
  ultimately show ?case
    unfolding step by simp
qed

text \<open>
  Claim C6. For \<open>len\<close> ranges inside the storage, the first one not empty and the
  widths adding up to at most 64, the split \<open>asLong\<close> returns the scale times the two's
  complement value of the concatenation of the ranges' cells, in the order of the arrays
  (the sign is the first cell of the first range), provided this product fits 64 signed
  bits. This is what sign extension of the first range followed by shift-and-OR of the
  others computes; it is not the sum of the values of the ranges.
\<close>

theorem asLong_split_concatenates:
  assumes "1 \<le> len" and "len \<le> length startBits" and "len \<le> length numBits"
    and "length (bits p) < 2 ^ 31"
    and "\<forall>j<len. startBits ! j + numBits ! j \<le> length (bits p)"
    and "1 \<le> numBits ! 0" and "sum_list (take len numBits) \<le> 64"
    and "- (2 ^ 63) \<le> signed_bits_value
            (concat (map (\<lambda>j. field_bits (bits p) (startBits ! j) (numBits ! j)) [0 ..< len])) * scale"
    and "signed_bits_value
            (concat (map (\<lambda>j. field_bits (bits p) (startBits ! j) (numBits ! j)) [0 ..< len])) * scale
          < 2 ^ 63"
  shows "\<exists>w. asLong_split p startBits numBits len scale = Inr w \<and>
             sint w = signed_bits_value
               (concat (map (\<lambda>j. field_bits (bits p) (startBits ! j) (numBits ! j)) [0 ..< len]))
               * scale"
proof -
  let ?f = "\<lambda>j. field_bits (bits p) (startBits ! j) (numBits ! j)"
  obtain k where len: "len = Suc k" using assms(1) by (cases len) simp_all
  have ne: "startBits \<noteq> []" "numBits \<noteq> []"
    using assms(1,2,3) by auto
  have nb: "take len numBits = numBits ! 0 # take k (drop 1 numBits)"
    using ne(2) len by (cases numBits) simp_all
  have n0: "numBits ! 0 \<le> 64"
    using assms(7) unfolding nb by simp
  have room0: "startBits ! 0 + numBits ! 0 \<le> length (bits p)"
    using assms(5) len by simp
  obtain s0 where s0: "SignExtend p (int (startBits ! 0)) (int (numBits ! 0)) = Inr s0"
      "sint s0 = signed_bits_value (?f 0)"
    using SignExtend_value [OF assms(6) n0 room0 assms(4)] by blast
  have iu0: "int_of_unsigned (startBits ! 0) = int (startBits ! 0)"
      "int_of_unsigned (numBits ! 0) = int (numBits ! 0)"
    using room0 assms(4) by (simp_all add: int_of_unsigned_small)
  have len0: "length (?f 0) = numBits ! 0" using room0 by simp
  have "\<exists>s'. asLong_loop p startBits numBits 1 k s0 = Inr s' \<and>
           sint s' = signed_bits_value (?f 0 @ concat (map ?f [1 ..< 1 + k]))"
  proof (rule asLong_loop_value)
    show "1 + k \<le> length startBits" "1 + k \<le> length numBits"
      using assms(2,3) len by simp_all
    show "length (bits p) < 2 ^ 31" by (rule assms(4))
    show "\<forall>j. 1 \<le> j \<and> j < 1 + k \<longrightarrow> startBits ! j + numBits ! j \<le> length (bits p)"
      using assms(5) len by simp
    show "?f 0 \<noteq> []" using len0 assms(6) by auto
    show "sint s0 = signed_bits_value (?f 0)" by (rule s0(2))
    show "length (?f 0) + sum_list (take k (drop 1 numBits)) \<le> 64"
      using assms(7) len0 unfolding nb by simp
  qed
  then obtain s' where s': "asLong_loop p startBits numBits 1 k s0 = Inr s'"
      "sint s' = signed_bits_value (?f 0 @ concat (map ?f [1 ..< 1 + k]))"
    by blast
  have "[0 ..< len] = 0 # [1 ..< 1 + k]"
    unfolding len by (simp add: upt_conv_Cons)
  then have all: "sint s' = signed_bits_value (concat (map ?f [0 ..< len]))"
    using s'(2) by simp
  obtain w where w: "long_times s' scale = Inr w" "sint w = sint s' * scale"
    using long_times_in_range [of s' scale] assms(8,9) unfolding all by blast
  have "asLong_split p startBits numBits len scale = Inr w"
    using ne s0(1) s'(1) w(1) len iu0 by (simp add: asLong_split_def)
  then show ?thesis
    using w(2) all by simp
qed

lemma upt_2: "[0 ..< 2] = [0, Suc 0]"
  by (simp add: upt_conv_Cons)

lemma all_less_2: "(\<forall>j<(2::nat). P j) \<longleftrightarrow> P 0 \<and> P (Suc 0)"
  by (auto simp add: numeral_2_eq_2 less_Suc_eq)

text \<open>
  The cells 1101 read as the ranges (0, 2) and (2, 2) give \<open>-3\<close>, the value of 1101,
  while the first range alone is \<open>-1\<close> and the second one 1: their sum is 0.
\<close>

theorem asLong_split_concatenates_witness:
  "(\<exists>w. asLong_split (emptyPNB\<lparr> bits := [True, True, False, True] \<rparr>) [0, 2] [2, 2] 2 1 = Inr w
        \<and> sint w = - 3) \<and>
   (\<exists>a b. asLong (emptyPNB\<lparr> bits := [True, True, False, True] \<rparr>) 0 2 1 = Inr a \<and>
          asUnsignedLong (emptyPNB\<lparr> bits := [True, True, False, True] \<rparr>) 2 2 1 = Inr b \<and>
          sint a + sint b = 0)"
proof -
  have v: "signed_bits_value [True, True, False, True] = - 3"
    by (simp add: signed_bits_value_def bits_value_def)
  have "\<exists>w. asLong_split (emptyPNB\<lparr> bits := [True, True, False, True] \<rparr>) [0, 2] [2, 2] 2 1 = Inr w
        \<and> sint w = - 3"
    using asLong_split_concatenates
      [of 2 "[0, 2]" "[2, 2]" "emptyPNB\<lparr> bits := [True, True, False, True] \<rparr>" 1]
    by (simp add: upt_2 field_bits_def v all_less_2)
  moreover have "asUint64_t (emptyPNB\<lparr> bits := [True, True, False, True] \<rparr>) 0 2 = Inr 3"
    by (simp add: asUint64_t_def size_t_of_def asUint64_step_def upt_2)
  then have "asLong (emptyPNB\<lparr> bits := [True, True, False, True] \<rparr>) 0 2 1 = Inr (- 1)"
    by (simp add: asLong_def SignExtend_def long_times_def)
  moreover have "asUint64_t (emptyPNB\<lparr> bits := [True, True, False, True] \<rparr>) 2 2 = Inr 1"
    by (simp add: asUint64_t_def size_t_of_def asUint64_step_def upt_conv_Cons)
  then have "asUnsignedLong (emptyPNB\<lparr> bits := [True, True, False, True] \<rparr>) 2 2 1 = Inr 1"
    by (simp add: asUnsignedLong_def)
  ultimately show ?thesis
    by simp
qed

subsection \<open>Text import\<close>






















lemma hexDigits_length [simp]: "length (hexDigits k x) = k"
  by (induction k arbitrary: x) simp_all





lemma hexWord_length [simp]: "length (hexWord w) = 10"
  by (simp add: hexWord_def)







lemma word_bits_length [simp]: "length (word_bits w) = 32"
  by (simp add: word_bits_def)

lemma concat_word_bits_length [simp]: "length (concat (map word_bits ws)) = 32 * length ws"
  by (induction ws) simp_all












end
